theory Spec2Isabelle
  imports Complex_Main
begin

section \<open>Numbers and strings of the source language\<close>

text \<open>
  The program is TypeScript (\<^verbatim>\<open>src/app.ts\<close>); its numbers are IEEE 754 binary64
  values. A \<open>number\<close> is a finite double, given by the rational it denotes, one of the
  two infinities, or NaN. The two zeros are one value here: the program neither divides
  by a number nor prints the sign of a zero.
  Strings are lists of 8-bit characters.
\<close>

datatype number = Finite rat | PosInf | NegInf | NaN

text \<open>
  \<open>pow2 e\<close> is 2 to the power \<open>e\<close>, for any integer \<open>e\<close>. \<open>ilog2 n\<close> is the integer
  logarithm to base 2 of \<open>n \<ge> 1\<close>, rounded down.
\<close>

definition pow2 :: "int \<Rightarrow> rat" where
  "pow2 e = (if 0 \<le> e then 2 ^ nat e else 1 / 2 ^ nat (- e))"

function ilog2 :: "int \<Rightarrow> nat" where
  "ilog2 n = (if n < 2 then 0 else Suc (ilog2 (n div 2)))"
  by pat_completeness auto
termination
  by (relation "measure nat") auto

declare ilog2.simps [simp del]

text \<open>
  The binary exponent of a rational \<open>q \<noteq> 0\<close>: the \<open>e\<close> with
  \<open>pow2 e \<le> \<bar>q\<bar> < pow2 (e + 1)\<close> (lemmas \<open>exponent_lower\<close> and \<open>exponent_upper\<close>).
\<close>

definition exponent :: "rat \<Rightarrow> int" where
  "exponent q =
     (if 1 \<le> \<bar>q\<bar> then int (ilog2 \<lfloor>\<bar>q\<bar>\<rfloor>)
      else - int (Suc (ilog2 (\<lceil>1 / \<bar>q\<bar>\<rceil> - 1))))"

text \<open>The nearest integer, a tie going to the even one.\<close>

definition round_half_even :: "rat \<Rightarrow> int" where
  "round_half_even x =
     (let f = \<lfloor>x\<rfloor>; d = x - of_int f
      in if d < 1 / 2 then f
         else if 1 / 2 < d then f + 1
         else if even f then f else f + 1)"

text \<open>
  Rounding to binary64, to nearest with ties to even. A double is a multiple of the
  unit \<open>pow2 (e - 52)\<close>, where \<open>e\<close> is the exponent of the number and at least -1022
  (below that the numbers are subnormal, multiples of \<open>pow2 (-1074)\<close>); what rounds to
  \<open>pow2 1024\<close> or beyond is an infinity.
\<close>

definition round64 :: "rat \<Rightarrow> number" where
  "round64 q =
     (if q = 0 then Finite 0
      else (let u = pow2 (max (exponent q) (- 1022) - 52);
                r = of_int (round_half_even (q / u)) * u
            in if pow2 1024 \<le> \<bar>r\<bar> then (if 0 < q then PosInf else NegInf)
               else Finite r))"

text \<open>The sum of two numbers, and the half of a number, as binary64 computes them.\<close>

fun add64 :: "number \<Rightarrow> number \<Rightarrow> number" where
  "add64 (Finite a) (Finite b) = round64 (a + b)"
| "add64 NaN b = NaN"
| "add64 a NaN = NaN"
| "add64 PosInf NegInf = NaN"
| "add64 NegInf PosInf = NaN"
| "add64 PosInf b = PosInf"
| "add64 a PosInf = PosInf"
| "add64 NegInf b = NegInf"
| "add64 a NegInf = NegInf"

fun half64 :: "number \<Rightarrow> number" where
  "half64 (Finite a) = round64 (a / 2)"
| "half64 a = a"

text \<open>\<^verbatim>\<open>(a + b) / 2\<close>.\<close>

definition half_sum :: "number \<Rightarrow> number \<Rightarrow> number" where
  "half_sum a b = half64 (add64 a b)"

text \<open>The class \<^verbatim>\<open>\d\<close> of the regular expression: the ten ASCII digits.\<close>

definition is_digit :: "char \<Rightarrow> bool" where
  "is_digit c = (c \<in> set ''0123456789'')"

definition digit_val :: "char \<Rightarrow> nat" where
  "digit_val c = of_char c - 48"

definition digit_char :: "nat \<Rightarrow> char" where
  "digit_char k = char_of (48 + k)"

text \<open>
  The decimal numeral of an array index, as a template literal \<^verbatim>\<open>${i}\<close> prints it.
\<close>

fun nat_to_string :: "nat \<Rightarrow> string" where
  "nat_to_string n =
     (if n < 10 then [digit_char n]
      else nat_to_string (n div 10) @ [digit_char (n mod 10)])"

definition digits_to_nat :: "string \<Rightarrow> nat" where
  "digits_to_nat ds = foldl (\<lambda>acc c. 10 * acc + digit_val c) 0 ds"

text \<open>
  \<^verbatim>\<open>String.prototype.toUpperCase\<close>, on ASCII letters; every other character is kept.
\<close>

definition upper_char :: "char \<Rightarrow> char" where
  "upper_char c =
     (if 97 \<le> (of_char c :: nat) \<and> (of_char c :: nat) \<le> 122
      then char_of ((of_char c :: nat) - 32) else c)"

definition toUpperCase :: "string \<Rightarrow> string" where
  "toUpperCase s = map upper_char s"

subsection \<open>The number scanner of \<open>bezierMidpoint\<close>\<close>

text \<open>
  \<^verbatim>\<open>d.match(/-?\d+(\.\d+)?/g)\<close>. \<open>match_number cs\<close> is one attempt of the regular
  expression at the head of \<open>cs\<close>: an optional minus sign, one or more digits (as many
  as there are), and a fraction when a dot is followed by at least one digit. It
  returns the matched text and the rest of the input. A minus sign that no digit
  follows matches nothing: after backtracking, \<^verbatim>\<open>\d+\<close> faces the sign itself.
\<close>

definition match_number :: "string \<Rightarrow> (string \<times> string) option" where
  "match_number cs =
     (let (sgn, r0) = (case cs of
                         [] \<Rightarrow> ('''', cs)
                       | c # r \<Rightarrow> if c = CHR ''-'' then (''-'', r) else ('''', cs));
          ds = takeWhile is_digit r0;
          r1 = dropWhile is_digit r0
      in if ds = [] then None
         else (case r1 of
                 [] \<Rightarrow> Some (sgn @ ds, r1)
               | c # r2 \<Rightarrow>
                   if c = CHR ''.'' \<and> takeWhile is_digit r2 \<noteq> []
                   then Some (sgn @ ds @ ''.'' @ takeWhile is_digit r2, dropWhile is_digit r2)
                   else Some (sgn @ ds, r1)))"

lemma match_number_shorter:
  assumes "match_number cs = Some (tok, r)"
  shows "length r < length cs"
proof -
  obtain sgn r0 where sr: "(case cs of
                         [] \<Rightarrow> ('''', cs)
                       | c # r \<Rightarrow> if c = CHR ''-'' then (''-'', r) else ('''', cs)) = (sgn, r0)"
    by (cases "(case cs of
                         [] \<Rightarrow> ('''', cs)
                       | c # r \<Rightarrow> if c = CHR ''-'' then (''-'', r) else ('''', cs))") blast
  then have r0: "length r0 \<le> length cs"
    by (auto split: list.splits if_splits)
  from assms sr have ne: "takeWhile is_digit r0 \<noteq> []"
    by (auto simp: match_number_def Let_def split: if_splits)
  then have lt: "length (dropWhile is_digit r0) < length r0"
    by (cases r0) (auto simp: le_imp_less_Suc length_dropWhile_le split: if_splits)
  define r1 where "r1 = dropWhile is_digit r0"
  from assms sr ne
  have m: "(case r1 of
              [] \<Rightarrow> Some (sgn @ takeWhile is_digit r0, r1)
            | c # r2 \<Rightarrow>
                if c = CHR ''.'' \<and> takeWhile is_digit r2 \<noteq> []
                then Some (sgn @ takeWhile is_digit r0 @ ''.'' @ takeWhile is_digit r2,
                           dropWhile is_digit r2)
                else Some (sgn @ takeWhile is_digit r0, r1)) = Some (tok, r)"
    unfolding match_number_def Let_def r1_def by simp
  have "length r \<le> length r1"
  proof (cases r1)
    case Nil
    with m show ?thesis by simp
  next
    case (Cons c r2)
    have "length (dropWhile is_digit r2) \<le> length r2"
      by (rule length_dropWhile_le)
    with m Cons show ?thesis
      by (auto split: if_splits)
  qed
  with lt r0 show ?thesis
    unfolding r1_def by simp
qed

text \<open>
  The global flag: the matches from left to right, each search resuming where the
  match before it ended, or one character further on when nothing matched.
\<close>

function match_all :: "string \<Rightarrow> string list" where
  "match_all [] = []"
| "match_all (c # cs) =
     (case match_number (c # cs) of
        None \<Rightarrow> match_all cs
      | Some (tok, r) \<Rightarrow> tok # match_all r)"
  by pat_completeness auto
termination
  by (relation "measure length") (auto dest: match_number_shorter)

text \<open>
  \<^verbatim>\<open>Number(tok)\<close> on a text the regular expression matched. \<open>decimal_value\<close> is the
  number that the text denotes: sign, integer digits and fraction digits, read in base
  ten. \<open>Number\<close> is the double nearest to it, a tie going to the even one, as the
  engines compute it (beyond twenty significant digits the language specification would
  also accept the double nearest to the text cut at the twentieth digit).
\<close>

definition digits_to_int :: "string \<Rightarrow> int" where
  "digits_to_int ds = foldl (\<lambda>acc c. 10 * acc + int (digit_val c)) 0 ds"

definition decimal_value :: "string \<Rightarrow> rat" where
  "decimal_value tok =
     (let (neg, body) = (case tok of
                           [] \<Rightarrow> (False, tok)
                         | c # r \<Rightarrow> if c = CHR ''-'' then (True, r) else (False, tok));
          ip = takeWhile is_digit body;
          fp = drop 1 (dropWhile is_digit body);
          v = of_int (digits_to_int ip) + of_int (digits_to_int fp) / 10 ^ length fp
      in if neg then - v else v)"

definition Number :: "string \<Rightarrow> number" where
  "Number tok = round64 (decimal_value tok)"

text \<open>
  \<^verbatim>\<open>d.match(...)?.map(Number) || []\<close>: \<^verbatim>\<open>match\<close> gives \<^verbatim>\<open>null\<close> when nothing matches,
  which the source turns into the empty array.
\<close>

definition parse_numbers :: "string \<Rightarrow> number list" where
  "parse_numbers d = map Number (match_all d)"

text \<open>
  A destructured array element: \<^verbatim>\<open>undefined\<close> beyond the end of the array, and
  \<^verbatim>\<open>undefined\<close> is \<open>NaN\<close> as an operand of \<open>+\<close>.
\<close>

definition element_at :: "number list \<Rightarrow> nat \<Rightarrow> number" where
  "element_at nums k = (if k < length nums then nums ! k else NaN)"

record point =
  px :: number
  py :: number

text \<open>\<^verbatim>\<open>bezierMidpoint\<close> (app.ts, lines 118 to 129).\<close>

definition bezierMidpoint :: "string \<Rightarrow> point" where
  "bezierMidpoint d =
     (let nums = parse_numbers d;
          x1 = element_at nums 0; y1 = element_at nums 1;
          cx1 = element_at nums 2; cy1 = element_at nums 3;
          cx2 = element_at nums 4; cy2 = element_at nums 5;
          x2 = element_at nums 6; y2 = element_at nums 7;
          q0x = half_sum x1 cx1; q0y = half_sum y1 cy1;
          q1x = half_sum cx1 cx2; q1y = half_sum cy1 cy2;
          q2x = half_sum cx2 x2; q2y = half_sum cy2 y2;
          r0x = half_sum q0x q1x; r0y = half_sum q0y q1y;
          r1x = half_sum q1x q2x; r1y = half_sum q1y q2y
      in \<lparr>px = half_sum r0x r1x, py = half_sum r0y r1y\<rparr>)"

section \<open>The plan model\<close>

text \<open>
  The types of app.ts, lines 4 to 18. An optional field is an \<open>option\<close>; a payload
  (\<^verbatim>\<open>any\<close> in the source, never inspected) is a JSON value. \<^verbatim>\<open>Step\<close> is the union of
  the three object types, each with exactly its own key.
\<close>

datatype json = JString string | JObject "(string \<times> json) list"

record action =
  action_id :: string
  action_provider :: "string option"
  action_label :: string
  action_tool_name :: "string option"
  action_payload :: "json option"

record store_variable =
  variable_name :: string
  description :: string

record seq_action =
  seq_label :: "string option"
  seq_call_type :: "string option"
  seq_tool_name :: string
  seq_payload :: "json option"
  seq_store_variables :: "store_variable list option"

datatype step =
    ActionStep action
  | SplitStep (split_id: string) (split_label: string) (split_branches: "branch list")
  | SequentialStep "seq_action list"
and branch = Branch (branch_label: string) (branch_steps: "step list")

record plan =
  plan_steps :: "step list"

text \<open>The constant \<^verbatim>\<open>example\<close> (app.ts, lines 20 to 51).\<close>

definition example :: plan where
  "example = \<lparr>plan_steps =
     [SplitStep ''is_manager'' ''Is manager?''
        [Branch ''true''
           [ActionStep \<lparr>action_id = ''add_to_channel'', action_provider = Some ''slack'',
              action_label = ''Add to channel'',
              action_tool_name = Some ''SLACK_INVITE_TO_CHANNEL'',
              action_payload = Some (JObject [(''channel'', JString ''managers'')])\<rparr>],
         Branch ''false''
           [ActionStep \<lparr>action_id = ''update_profile'', action_provider = Some ''slack'',
              action_label = ''Update profile'',
              action_tool_name = Some ''SLACK_UPDATE_PROFILE'',
              action_payload = Some (JObject [(''title'', JString ''IC'')])\<rparr>]],
      SequentialStep
        [\<lparr>seq_label = Some ''Create product'', seq_call_type = Some ''Composio'',
          seq_tool_name = ''SHOPIFY_CREATE_PRODUCT'',
          seq_payload = Some (JObject [(''title'', JString ''iPhone'')]),
          seq_store_variables = None\<rparr>,
         \<lparr>seq_label = Some ''Generate image'', seq_call_type = Some ''SELF_MADE'',
          seq_tool_name = ''OPENAI_IMAGE_GENERATION'',
          seq_payload = Some (JObject [(''prompt_text'', JString ''iPhone''),
                                       (''output_filename'', JString ''iphone.png'')]),
          seq_store_variables = None\<rparr>,
         \<lparr>seq_label = Some ''Expose file'', seq_call_type = Some ''SELF_MADE'',
          seq_tool_name = ''EXPOSE_FILE_ON_URL'',
          seq_payload = Some (JObject [(''file_path'', JString ''{generated_image}'')]),
          seq_store_variables = None\<rparr>,
         \<lparr>seq_label = Some ''Attach image'', seq_call_type = Some ''Composio'',
          seq_tool_name = ''SHOPIFY_CREATE_PRODUCT_IMAGE'',
          seq_payload = Some (JObject [(''image'', JObject [(''src'', JString ''{image_url}'')]),
                                       (''product_id'', JString ''{product_id}'')]),
          seq_store_variables = None\<rparr>]]\<rparr>"

section \<open>The page: canvas, wires and node boxes\<close>

text \<open>
  What \<open>createNode\<close> builds: the class (\<^verbatim>\<open>node--decision\<close> or \<^verbatim>\<open>node--action\<close>), the
  numbers its \<^verbatim>\<open>style.left\<close> and \<^verbatim>\<open>style.top\<close> are written from, the title and the
  subtitle of its content, and \<^verbatim>\<open>dataset.nodeId\<close>. The content has a subtitle only when
  \<^verbatim>\<open>opts.subtitle\<close> is truthy: given and not empty.
\<close>

datatype node_type = Decision | Action

record node_opts =
  opt_title :: string
  opt_subtitle :: "string option"
  opt_type :: node_type
  opt_x :: rat
  opt_y :: rat

record node_element =
  el_node_id :: string
  el_type :: node_type
  el_left :: rat
  el_top :: rat
  el_title :: string
  el_subtitle :: "string option"

text \<open>What \<open>labelAt\<close> builds: the text, and the point its style is written from.\<close>

record label_element =
  lbl_text :: string
  lbl_left :: number
  lbl_top :: number

text \<open>
  A child of the canvas: a node, a branch label, or anything else the page holds there
  (by its class name), which the program never touches.
\<close>

datatype element = NodeEl node_element | LabelEl label_element | OtherEl string

text \<open>\<^verbatim>\<open>NodeBBox\<close> (app.ts, line 56).\<close>

record NodeBBox =
  box_x :: rat
  box_y :: rat
  box_w :: rat
  box_h :: rat
  box_el :: node_element

text \<open>
  The mutable state: the children of the canvas in document order, the \<^verbatim>\<open>d\<close> attribute
  of each path under the svg element in document order (the other attributes that
  \<open>addWire\<close> sets are constants), the svg element's \<^verbatim>\<open>viewBox\<close> attribute, and the global
  \<^verbatim>\<open>nodePositions\<close>.
\<close>

record page =
  canvas :: "element list"
  svg :: "string list"
  viewBox :: "string option"
  nodePositions :: "string \<rightharpoonup> NodeBBox"

text \<open>
  What the browser answers, taken as parameters: the width and height that
  \<^verbatim>\<open>getBoundingClientRect\<close> reports for a node just appended, the text a template literal
  prints for a number, and the width and height of the canvas.
\<close>

record env =
  node_rect :: "node_element \<Rightarrow> rat \<times> rat"
  numberToString :: "rat \<Rightarrow> string"
  canvas_rect :: "rat \<times> rat"

datatype error = TypeError

text \<open>
  A call either completes with a value, or throws with the page as it stands at the
  throw.
\<close>

type_synonym 'a result = "(error \<times> page) + 'a"

text \<open>\<^verbatim>\<open>x || ""\<close> on an optional string, and the truthiness of an optional string.\<close>

definition or_empty :: "string option \<Rightarrow> string" where
  "or_empty v = (case v of None \<Rightarrow> '''' | Some t \<Rightarrow> t)"

definition truthy :: "string option \<Rightarrow> bool" where
  "truthy v = (case v of None \<Rightarrow> False | Some t \<Rightarrow> t \<noteq> '''')"

text \<open>\<^verbatim>\<open>createNode\<close> (app.ts, lines 59 to 86).\<close>

definition createNode :: "env \<Rightarrow> string \<Rightarrow> node_opts \<Rightarrow> page \<Rightarrow> page" where
  "createNode e ident opts s =
     (let el = \<lparr>el_node_id = ident, el_type = opt_type opts,
                el_left = opt_x opts, el_top = opt_y opts,
                el_title = opt_title opts,
                el_subtitle = (if truthy (opt_subtitle opts) then opt_subtitle opts else None)\<rparr>;
          rect = node_rect e el
      in s\<lparr>canvas := canvas s @ [NodeEl el],
           nodePositions := (nodePositions s)(ident \<mapsto>
             \<lparr>box_x = opt_x opts, box_y = opt_y opts,
              box_w = fst rect, box_h = snd rect, box_el = el\<rparr>)\<rparr>)"

text \<open>
  \<^verbatim>\<open>pathBetween\<close> (app.ts, lines 88 to 96); \<open>str\<close> prints a number. The positions and
  sizes of the layout are rationals, and the sums here and in \<open>render\<close> are exact. The
  program's sums are binary64: they are these sums wherever the exact result is a
  double, as it is for the integer positions of \<open>render\<close> and for every number that is
  read back as printed (\<open>reads_back\<close> below), and they are the nearest double elsewhere.
\<close>

definition pathBetween :: "(rat \<Rightarrow> string) \<Rightarrow> NodeBBox \<Rightarrow> NodeBBox \<Rightarrow> rat \<Rightarrow> string" where
  "pathBetween str from to dx =
     (let x1 = box_x from + box_w from;
          y1 = box_y from + box_h from / 2;
          x2 = box_x to;
          y2 = box_y to + box_h to / 2;
          cx1 = x1 + dx;
          cx2 = x2 - dx
      in ''M '' @ str x1 @ '' '' @ str y1 @ '' C '' @ str cx1 @ '' '' @ str y1 @ '', ''
         @ str cx2 @ '' '' @ str y2 @ '', '' @ str x2 @ '' '' @ str y2)"

text \<open>\<^verbatim>\<open>addWire\<close> (app.ts, lines 98 to 107) and \<^verbatim>\<open>labelAt\<close> (lines 109 to 116).\<close>

definition addWire :: "string \<Rightarrow> page \<Rightarrow> page" where
  "addWire d s = s\<lparr>svg := svg s @ [d]\<rparr>"

definition labelAt :: "point \<Rightarrow> string \<Rightarrow> page \<Rightarrow> page" where
  "labelAt mid txt s =
     s\<lparr>canvas := canvas s @ [LabelEl \<lparr>lbl_text = txt, lbl_left = px mid, lbl_top = py mid\<rparr>]\<rparr>"

section \<open>The layout engine\<close>

text \<open>The constants of \<open>render\<close> (app.ts, lines 136, 139 and 151).\<close>

definition originX :: rat where "originX = 140"
definition originY :: rat where "originY = 160"
definition columnWidth :: rat where "columnWidth = 320"
definition gapY :: rat where "gapY = 140"

text \<open>
  The identifier of a branch's node (app.ts, line 156): the action's own, or \<^verbatim>\<open>b${i}\<close>
  when that is the empty string. The identifier of a sequential entry's node (line 179).
\<close>

definition branch_node_id :: "nat \<Rightarrow> action \<Rightarrow> string" where
  "branch_node_id i a = (if action_id a \<noteq> '''' then action_id a else ''b'' @ nat_to_string i)"

definition seq_node_id :: "nat \<Rightarrow> seq_action \<Rightarrow> string" where
  "seq_node_id idx a = ''seq_'' @ nat_to_string idx @ ''_'' @ seq_tool_name a"

text \<open>
  The body of \<^verbatim>\<open>branches.forEach\<close> (app.ts, lines 153 to 170), for the branch \<open>br\<close> at
  index \<open>i\<close> of the split \<open>sid\<close>. Reading \<^verbatim>\<open>first.action\<close> throws when the branch has no
  step; reading \<^verbatim>\<open>first.action.label\<close> throws when its first step is not an action. Both
  happen before \<open>createNode\<close> is called.
\<close>

definition render_branch :: "env \<Rightarrow> string \<Rightarrow> rat \<Rightarrow> nat \<Rightarrow> branch \<Rightarrow> page \<Rightarrow> page result" where
  "render_branch e sid cursorY i br s =
     (case branch_steps br of
        [] \<Rightarrow> Inl (TypeError, s)
      | first # _ \<Rightarrow>
          (case first of
             ActionStep a \<Rightarrow>
               (let ident = branch_node_id i a;
                    baseX = originX + columnWidth;
                    y = cursorY + of_nat i * gapY;
                    s1 = createNode e ident
                           \<lparr>opt_title = action_label a,
                            opt_subtitle = Some (toUpperCase (or_empty (action_provider a))),
                            opt_type = Action,
                            opt_x = baseX + of_nat i * 0,
                            opt_y = y\<rparr> s
                in (case (nodePositions s1 sid, nodePositions s1 ident) of
                      (Some from, Some to) \<Rightarrow>
                        (let d = pathBetween (numberToString e) from to 70;
                             s2 = addWire d s1;
                             mid = bezierMidpoint d
                         in Inr (labelAt mid (branch_label br) s2))
                    | _ \<Rightarrow> Inl (TypeError, s1)))
           | _ \<Rightarrow> Inl (TypeError, s)))"

text \<open>\<^verbatim>\<open>branches.forEach\<close>: the branches in order, from index \<open>i\<close> on.\<close>

fun render_branches :: "env \<Rightarrow> string \<Rightarrow> rat \<Rightarrow> nat \<Rightarrow> branch list \<Rightarrow> page \<Rightarrow> page result" where
  "render_branches e sid cursorY i [] s = Inr s"
| "render_branches e sid cursorY i (br # brs) s =
     (case render_branch e sid cursorY i br s of
        Inl err \<Rightarrow> Inl err
      | Inr s' \<Rightarrow> render_branches e sid cursorY (Suc i) brs s')"

text \<open>
  The body of \<^verbatim>\<open>step.sequential.forEach\<close> (app.ts, lines 178 to 192) for the entry \<open>a\<close>
  at index \<open>idx\<close>; \<open>prevId\<close> is \<open>None\<close> for \<^verbatim>\<open>null\<close>. It returns the new \<open>prevId\<close> with
  the page.
\<close>

definition render_seq_action ::
  "env \<Rightarrow> rat \<Rightarrow> nat \<Rightarrow> string option \<Rightarrow> seq_action \<Rightarrow> page \<Rightarrow> (string option \<times> page) result" where
  "render_seq_action e cursorY idx prevId a s =
     (let ident = seq_node_id idx a;
          s1 = createNode e ident
                 \<lparr>opt_title = (if truthy (seq_label a) then or_empty (seq_label a)
                               else seq_tool_name a),
                  opt_subtitle = Some (toUpperCase (or_empty (seq_call_type a))),
                  opt_type = Action,
                  opt_x = originX,
                  opt_y = cursorY + of_nat idx * 120\<rparr> s
      in if truthy prevId
         then (case (nodePositions s1 (or_empty prevId), nodePositions s1 ident) of
                 (Some from, Some to) \<Rightarrow>
                   Inr (Some ident, addWire (pathBetween (numberToString e) from to 60) s1)
               | _ \<Rightarrow> Inl (TypeError, s1))
         else Inr (Some ident, s1))"

fun render_sequential ::
  "env \<Rightarrow> rat \<Rightarrow> nat \<Rightarrow> string option \<Rightarrow> seq_action list \<Rightarrow> page \<Rightarrow> page result" where
  "render_sequential e cursorY idx prevId [] s = Inr s"
| "render_sequential e cursorY idx prevId (a # as) s =
     (case render_seq_action e cursorY idx prevId a s of
        Inl err \<Rightarrow> Inl err
      | Inr (prevId', s') \<Rightarrow> render_sequential e cursorY (Suc idx) prevId' as s')"

text \<open>
  The body of the loop over \<^verbatim>\<open>plan.steps\<close> (app.ts, lines 142 to 195): the new
  \<open>cursorY\<close> and the page. A top-level action step has neither key and draws nothing.
\<close>

definition render_step :: "env \<Rightarrow> step \<Rightarrow> rat \<Rightarrow> page \<Rightarrow> (rat \<times> page) result" where
  "render_step e st cursorY s =
     (case st of
        SplitStep sid slabel branches \<Rightarrow>
          (let s1 = createNode e sid
                      \<lparr>opt_title = slabel, opt_subtitle = None, opt_type = Decision,
                       opt_x = originX, opt_y = cursorY\<rparr> s
           in (case render_branches e sid cursorY 0 branches s1 of
                 Inl err \<Rightarrow> Inl err
               | Inr s2 \<Rightarrow> Inr (cursorY + (of_nat (length branches) - 1) * gapY + 200, s2)))
      | SequentialStep sequential \<Rightarrow>
          (case render_sequential e cursorY 0 None sequential s of
             Inl err \<Rightarrow> Inl err
           | Inr s1 \<Rightarrow> Inr (cursorY + of_nat (length sequential) * 120 + 40, s1))
      | ActionStep a \<Rightarrow> Inr (cursorY, s))"

fun render_steps :: "env \<Rightarrow> step list \<Rightarrow> rat \<Rightarrow> page \<Rightarrow> (rat \<times> page) result" where
  "render_steps e [] cursorY s = Inr (cursorY, s)"
| "render_steps e (st # sts) cursorY s =
     (case render_step e st cursorY s of
        Inl err \<Rightarrow> Inl err
      | Inr (cursorY', s') \<Rightarrow> render_steps e sts cursorY' s')"

text \<open>
  The first three lines of \<open>render\<close> (app.ts, lines 132 to 134): every node and branch
  label leaves the canvas, every child leaves the svg element, \<^verbatim>\<open>nodePositions\<close> is
  empty again.
\<close>

definition is_other :: "element \<Rightarrow> bool" where
  "is_other el = (case el of OtherEl c \<Rightarrow> True | _ \<Rightarrow> False)"

definition clear :: "page \<Rightarrow> page" where
  "clear s = s\<lparr>canvas := filter is_other (canvas s), svg := [], nodePositions := Map.empty\<rparr>"

text \<open>\<^verbatim>\<open>render\<close> (app.ts, lines 131 to 200).\<close>

definition render :: "env \<Rightarrow> plan \<Rightarrow> page \<Rightarrow> page result" where
  "render e p s =
     (case render_steps e (plan_steps p) originY (clear s) of
        Inl err \<Rightarrow> Inl err
      | Inr (cursorY, s1) \<Rightarrow>
          Inr (s1\<lparr>viewBox := Some (''0 0 '' @ numberToString e (fst (canvas_rect e)) @ '' ''
                                    @ numberToString e (snd (canvas_rect e)))\<rparr>))"

text \<open>The page a call leaves behind, whether it completed or threw.\<close>

definition page_after :: "page result \<Rightarrow> page" where
  "page_after r = (case r of Inl (err, s) \<Rightarrow> s | Inr s \<Rightarrow> s)"

section \<open>Observations of a page\<close>

definition node_elements :: "page \<Rightarrow> node_element list" where
  "node_elements s = concat (map (\<lambda>el. case el of NodeEl n \<Rightarrow> [n] | _ \<Rightarrow> []) (canvas s))"

definition label_elements :: "page \<Rightarrow> label_element list" where
  "label_elements s = concat (map (\<lambda>el. case el of LabelEl l \<Rightarrow> [l] | _ \<Rightarrow> []) (canvas s))"

text \<open>
  A way to print numbers, for concrete runs: the sign, the integer digits and, when the
  number is not an integer, a dot and at most twenty fraction digits. For the integers
  and the halves that \<open>pathBetween\<close> computes from integer sizes this is what a template
  literal prints. In general JavaScript prints the shortest decimal that reads back as
  the same double, and an exponent for a magnitude below \<open>10\<^sup>-\<^sup>6\<close> or from \<open>10\<^sup>2\<^sup>1\<close> on,
  which is why the functions above take the printer as a parameter.
\<close>

fun fraction_digits :: "nat \<Rightarrow> rat \<Rightarrow> string" where
  "fraction_digits 0 r = []"
| "fraction_digits (Suc k) r =
     (if r = 0 then []
      else digit_char (nat \<lfloor>r * 10\<rfloor>) # fraction_digits k (r * 10 - of_int \<lfloor>r * 10\<rfloor>))"

definition decimal_string :: "rat \<Rightarrow> string" where
  "decimal_string q =
     (let a = \<bar>q\<bar>;
          ip = nat \<lfloor>a\<rfloor>;
          fs = fraction_digits 20 (a - of_int \<lfloor>a\<rfloor>)
      in (if q < 0 then ''-'' else '''') @ nat_to_string ip
         @ (if fs = [] then [] else ''.'' @ fs))"


text \<open>A sequential entry with nothing but its tool name, for concrete runs.\<close>

definition tool :: "string \<Rightarrow> seq_action" where
  "tool t = \<lparr>seq_label = None, seq_call_type = None, seq_tool_name = t,
             seq_payload = None, seq_store_variables = None\<rparr>"

text \<open>
  The element that \<open>createNode\<close> builds from its arguments, and the box that it records
  for an element.
\<close>

definition node_el :: "string \<Rightarrow> node_opts \<Rightarrow> node_element" where
  "node_el ident opts =
     \<lparr>el_node_id = ident, el_type = opt_type opts,
      el_left = opt_x opts, el_top = opt_y opts,
      el_title = opt_title opts,
      el_subtitle = (if truthy (opt_subtitle opts) then opt_subtitle opts else None)\<rparr>"

definition box_of :: "env \<Rightarrow> node_element \<Rightarrow> NodeBBox" where
  "box_of e el =
     \<lparr>box_x = el_left el, box_y = el_top el,
      box_w = fst (node_rect e el), box_h = snd (node_rect e el), box_el = el\<rparr>"

text \<open>
  The options that the branch loop passes for the action \<open>a\<close> at index \<open>i\<close>, and the
  element that the sequential loop builds for the entry \<open>a\<close> at index \<open>idx\<close>.
\<close>

definition branch_opts :: "rat \<Rightarrow> nat \<Rightarrow> action \<Rightarrow> node_opts" where
  "branch_opts cursorY i a =
     \<lparr>opt_title = action_label a,
      opt_subtitle = Some (toUpperCase (or_empty (action_provider a))),
      opt_type = Action,
      opt_x = originX + columnWidth + of_nat i * 0,
      opt_y = cursorY + of_nat i * gapY\<rparr>"

definition seq_node :: "rat \<Rightarrow> nat \<Rightarrow> seq_action \<Rightarrow> node_element" where
  "seq_node cursorY idx a =
     node_el (seq_node_id idx a)
       \<lparr>opt_title = (if truthy (seq_label a) then or_empty (seq_label a) else seq_tool_name a),
        opt_subtitle = Some (toUpperCase (or_empty (seq_call_type a))),
        opt_type = Action,
        opt_x = originX,
        opt_y = cursorY + of_nat idx * 120\<rparr>"

text \<open>The sequential loop's wire from the node \<open>fst pn\<close> to the node \<open>snd pn\<close>.\<close>

definition wire_of :: "env \<Rightarrow> node_element \<times> node_element \<Rightarrow> string" where
  "wire_of e pn = pathBetween (numberToString e) (box_of e (fst pn)) (box_of e (snd pn)) 60"

text \<open>Where a node stands: its left and its top.\<close>

definition position :: "node_element \<Rightarrow> rat \<times> rat" where
  "position n = (el_left n, el_top n)"

text \<open>
  The shape that the branch loop handles without throwing: a first step, and it is an
  action. A step is handled when it is no split, or a split of such branches.
\<close>

definition starts_with_action :: "branch \<Rightarrow> bool" where
  "starts_with_action br =
     (case branch_steps br of
        [] \<Rightarrow> False
      | first # rest \<Rightarrow> (case first of ActionStep a \<Rightarrow> True | _ \<Rightarrow> False))"

definition well_formed_step :: "step \<Rightarrow> bool" where
  "well_formed_step st =
     (case st of
        SplitStep sid slabel branches \<Rightarrow> list_all starts_with_action branches
      | _ \<Rightarrow> True)"

text \<open>
  Concrete inputs: a browser that reports 200 by 81 for every node and prints numbers in
  decimal, an empty page, an action with nothing but its identifier and label, three
  branches of one action each, and a plan of two sequential blocks whose only entries
  get the same identifier.
\<close>

definition demo_env :: env where
  "demo_env = \<lparr>node_rect = (\<lambda>el. (200, 81)), numberToString = decimal_string,
               canvas_rect = (1000, 800)\<rparr>"

definition empty_page :: page where
  "empty_page = \<lparr>canvas = [], svg = [], viewBox = None, nodePositions = Map.empty\<rparr>"

definition act :: "string \<Rightarrow> string \<Rightarrow> action" where
  "act ident lbl = \<lparr>action_id = ident, action_provider = None, action_label = lbl,
                    action_tool_name = None, action_payload = None\<rparr>"

definition three_branches :: "branch list" where
  "three_branches =
     [Branch ''low'' [ActionStep (act ''a'' ''A'')],
      Branch ''mid'' [ActionStep (act ''b'' ''B'')],
      Branch ''high'' [ActionStep (act ''c'' ''C'')]]"

definition colliding_plan :: plan where
  "colliding_plan = \<lparr>plan_steps = [SequentialStep [tool ''T''], SequentialStep [tool ''T'']]\<rparr>"

text \<open>
  The mapping that sends an identifier to the box of the last node of \<open>ns\<close> that carries
  it: a later node of the same identifier hides an earlier one.
\<close>

definition latest_boxes :: "env \<Rightarrow> node_element list \<Rightarrow> (string \<rightharpoonup> NodeBBox)" where
  "latest_boxes e ns = map_of (rev (map (\<lambda>n. (el_node_id n, box_of e n)) ns))"


section \<open>The words of the specification\<close>

text \<open>
  The cubic curve with control points \<open>p0\<close>, \<open>p1\<close>, \<open>p2\<close>, \<open>p3\<close> at the parameter \<open>t\<close>,
  one coordinate at a time, in Bernstein form.
\<close>

definition cubic_bezier :: "rat \<Rightarrow> rat \<Rightarrow> rat \<Rightarrow> rat \<Rightarrow> rat \<Rightarrow> rat" where
  "cubic_bezier p0 p1 p2 p3 t =
     (1 - t) ^ 3 * p0 + 3 * (1 - t) ^ 2 * t * p1 + 3 * (1 - t) * t ^ 2 * p2 + t ^ 3 * p3"

text \<open>
  De Casteljau subdivision at one half, as the specification words it: interpolate each
  pair of consecutive control points, then the three results pairwise, then the two.
\<close>

definition interpolate_half :: "rat \<Rightarrow> rat \<Rightarrow> rat" where
  "interpolate_half a b = a + (b - a) * (1 / 2)"

definition de_casteljau_half :: "rat \<Rightarrow> rat \<Rightarrow> rat \<Rightarrow> rat \<Rightarrow> rat" where
  "de_casteljau_half p0 p1 p2 p3 =
     (let q0 = interpolate_half p0 p1;
          q1 = interpolate_half p1 p2;
          q2 = interpolate_half p2 p3;
          r0 = interpolate_half q0 q1;
          r1 = interpolate_half q1 q2
      in interpolate_half r0 r1)"

text \<open>
  \<open>dyadic j m v\<close>: the number \<open>v\<close> is a multiple of \<open>1 / 2 ^ j\<close> and at most
  \<open>2 ^ m / 2 ^ j\<close> in magnitude. With \<open>m = 49\<close> these are numbers on which the sums and
  halves of \<open>bezierMidpoint\<close> never round: the integers up to \<open>2 ^ 49\<close> for \<open>j = 0\<close>, the
  half pixels up to \<open>2 ^ 48\<close> for \<open>j = 1\<close>, and so on.
\<close>

definition dyadic :: "nat \<Rightarrow> nat \<Rightarrow> rat \<Rightarrow> bool" where
  "dyadic j m v = (of_int \<lfloor>v * 2 ^ j\<rfloor> = v * 2 ^ j \<and> \<bar>v\<bar> * 2 ^ j \<le> 2 ^ m)"


section \<open>Binary64 arithmetic\<close>

text \<open>
  Equations by which \<open>pow2\<close> and \<open>round64\<close> are evaluated on concrete numbers: powers by
  repeated squaring, and the overflow test on the exponent.
\<close>

lemma pow2_by_squaring [code]:
  "pow2 e =
     (if e < 0 then 1 / pow2 (- e)
      else if e = 0 then 1
      else if even e then (let h = pow2 (e div 2) in h * h)
      else 2 * pow2 (e - 1))"
proof -
  have ev: "pow2 e = pow2 (e div 2) * pow2 (e div 2)" if "0 < e" "even e"
  proof -
    from that obtain k where k: "e = 2 * k" by (auto elim: evenE)
    with that have "0 < k" by simp
    then have "nat (2 * k) = nat k + nat k" by simp
    with k \<open>0 < k\<close> show ?thesis
      by (simp add: pow2_def power_add)
  qed
  have od: "pow2 e = 2 * pow2 (e - 1)" if "0 < e"
  proof -
    from that have "nat e = Suc (nat (e - 1))" by simp
    with that show ?thesis by (simp add: pow2_def)
  qed
  show ?thesis
    using ev od by (auto simp: Let_def) (simp_all add: pow2_def)
qed

lemma pow2_powi: "pow2 e = 2 powi e"
  by (simp add: pow2_def power_int_def power_one_over [symmetric] inverse_eq_divide)

lemma pow2_pos: "0 < pow2 e"
  by (simp add: pow2_def)

lemma pow2_add: "pow2 (a + b) = pow2 a * pow2 b"
  by (simp add: pow2_powi power_int_add)

lemma pow2_mono: "a \<le> b \<Longrightarrow> pow2 a \<le> pow2 b"
  by (simp add: pow2_powi power_int_increasing)

lemma pow2_less_imp: "pow2 a < pow2 b \<Longrightarrow> a < b"
  using pow2_mono [of b a] by (cases "a < b") auto

lemma pow2_nat: "pow2 (int k) = 2 ^ k"
  by (simp add: pow2_def)

lemma pow2_neg_nat: "pow2 (- int k) = 1 / 2 ^ k"
  by (simp add: pow2_powi power_int_minus_divide)

lemma ilog2_bounds:
  "1 \<le> n \<Longrightarrow> 2 ^ ilog2 n \<le> n \<and> n < 2 ^ Suc (ilog2 n)"
proof (induction n rule: ilog2.induct)
  case (1 n)
  show ?case
  proof (cases "n < 2")
    case True
    with "1.prems" have "n = 1" by simp
    then show ?thesis by (simp add: ilog2.simps [of 1])
  next
    case False
    then have "1 \<le> n div 2" by simp
    with "1.IH" False have ih: "2 ^ ilog2 (n div 2) \<le> n div 2"
      "n div 2 < 2 ^ Suc (ilog2 (n div 2))" by simp_all
    have s: "ilog2 n = Suc (ilog2 (n div 2))"
      using False by (simp add: ilog2.simps [of n])
    from ih(1) have "2 * 2 ^ ilog2 (n div 2) \<le> n" by simp
    moreover from ih(2) have "n div 2 + 1 \<le> 2 ^ Suc (ilog2 (n div 2))" by simp
    then have "n < 2 * 2 ^ Suc (ilog2 (n div 2))" by simp
    ultimately show ?thesis by (simp add: s)
  qed
qed

lemma exponent_lower:
  assumes "q \<noteq> 0"
  shows "pow2 (exponent q) \<le> \<bar>q\<bar>"
proof (cases "1 \<le> \<bar>q\<bar>")
  case True
  then have n: "1 \<le> \<lfloor>\<bar>q\<bar>\<rfloor>" by simp
  from ilog2_bounds [OF n] have "(2::int) ^ ilog2 \<lfloor>\<bar>q\<bar>\<rfloor> \<le> \<lfloor>\<bar>q\<bar>\<rfloor>" by simp
  then have "of_int ((2::int) ^ ilog2 \<lfloor>\<bar>q\<bar>\<rfloor>) \<le> (of_int \<lfloor>\<bar>q\<bar>\<rfloor> :: rat)"
    by (simp only: of_int_le_iff)
  also have "\<dots> \<le> \<bar>q\<bar>" by simp
  finally show ?thesis
    using True by (simp add: exponent_def pow2_nat)
next
  case False
  let ?m = "\<lceil>1 / \<bar>q\<bar>\<rceil>"
  let ?k = "Suc (ilog2 (?m - 1))"
  from False assms have t: "1 < 1 / \<bar>q\<bar>" by simp
  then have "1 < ?m" by (simp add: less_ceiling_iff)
  then have m1: "1 \<le> ?m - 1" by simp
  from ilog2_bounds [OF m1] have "?m - 1 < 2 ^ ?k" by simp
  then have "?m \<le> 2 ^ ?k" by simp
  then have "(of_int ?m :: rat) \<le> of_int (2 ^ ?k)"
    by (simp only: of_int_le_iff)
  then have b: "(of_int ?m :: rat) \<le> 2 ^ ?k" by simp
  have a: "1 / \<bar>q\<bar> \<le> of_int ?m" by simp
  from a b have "1 / \<bar>q\<bar> \<le> 2 ^ ?k" by (rule order_trans)
  with assms have "1 / 2 ^ ?k \<le> \<bar>q\<bar>"
    by (simp add: field_simps)
  then have "pow2 (- int ?k) \<le> \<bar>q\<bar>"
    by (simp only: pow2_neg_nat)
  with False show ?thesis
    by (simp only: exponent_def if_False)
qed

lemma exponent_upper:
  assumes "q \<noteq> 0"
  shows "\<bar>q\<bar> < pow2 (exponent q + 1)"
proof (cases "1 \<le> \<bar>q\<bar>")
  case True
  then have n: "1 \<le> \<lfloor>\<bar>q\<bar>\<rfloor>" by simp
  from ilog2_bounds [OF n] have "\<lfloor>\<bar>q\<bar>\<rfloor> + 1 \<le> 2 ^ Suc (ilog2 \<lfloor>\<bar>q\<bar>\<rfloor>)" by simp
  then have "(of_int (\<lfloor>\<bar>q\<bar>\<rfloor> + 1) :: rat) \<le> of_int (2 ^ Suc (ilog2 \<lfloor>\<bar>q\<bar>\<rfloor>))"
    by (simp only: of_int_le_iff)
  moreover have "\<bar>q\<bar> < of_int (\<lfloor>\<bar>q\<bar>\<rfloor> + 1)" by linarith
  ultimately have "\<bar>q\<bar> < 2 ^ Suc (ilog2 \<lfloor>\<bar>q\<bar>\<rfloor>)" by simp
  moreover have "int (ilog2 \<lfloor>\<bar>q\<bar>\<rfloor>) + 1 = int (Suc (ilog2 \<lfloor>\<bar>q\<bar>\<rfloor>))" by simp
  ultimately show ?thesis
    using True by (simp only: exponent_def if_True pow2_nat)
next
  case False
  let ?m = "\<lceil>1 / \<bar>q\<bar>\<rceil>"
  let ?j = "ilog2 (?m - 1)"
  from False assms have t: "1 < 1 / \<bar>q\<bar>" by simp
  then have "1 < ?m" by (simp add: less_ceiling_iff)
  then have m1: "1 \<le> ?m - 1" by simp
  from ilog2_bounds [OF m1] have "2 ^ ?j \<le> ?m - 1" by simp
  then have "(of_int (2 ^ ?j) :: rat) \<le> of_int (?m - 1)"
    by (simp only: of_int_le_iff)
  moreover have "of_int (?m - 1) < 1 / \<bar>q\<bar>" by linarith
  ultimately have "2 ^ ?j < 1 / \<bar>q\<bar>" by simp
  with assms have "\<bar>q\<bar> < 1 / 2 ^ ?j"
    by (simp add: field_simps)
  moreover have "- int (Suc ?j) + 1 = - int ?j" by simp
  ultimately show ?thesis
    using False by (simp only: exponent_def if_False pow2_neg_nat)
qed

lemma overflow_iff:
  assumes "r \<noteq> 0"
  shows "pow2 1024 \<le> \<bar>r\<bar> \<longleftrightarrow> 1024 \<le> exponent r"
proof
  assume "pow2 1024 \<le> \<bar>r\<bar>"
  with exponent_upper [OF assms] have "pow2 1024 < pow2 (exponent r + 1)" by simp
  then have "1024 < exponent r + 1" by (rule pow2_less_imp)
  then show "1024 \<le> exponent r" by simp
next
  assume "1024 \<le> exponent r"
  then have "pow2 1024 \<le> pow2 (exponent r)" by (rule pow2_mono)
  with exponent_lower [OF assms] show "pow2 1024 \<le> \<bar>r\<bar>" by simp
qed

lemma round64_code [code]:
  "round64 q =
     (if q = 0 then Finite 0
      else (let u = pow2 (max (exponent q) (- 1022) - 52);
                r = of_int (round_half_even (q / u)) * u
            in if r \<noteq> 0 \<and> 1024 \<le> exponent r then (if 0 < q then PosInf else NegInf)
               else Finite r))"
proof -
  have "pow2 1024 \<le> \<bar>r\<bar> \<longleftrightarrow> r \<noteq> 0 \<and> 1024 \<le> exponent r" for r
    using overflow_iff [of r] pow2_pos [of 1024] by (cases "r = 0") auto
  then show ?thesis
    by (simp add: round64_def Let_def)
qed

lemma round_half_even_of_int: "round_half_even (of_int z) = z"
  by (simp add: round_half_even_def)

lemma round64_exact:
  assumes v: "v * 2 ^ j = of_int n" and n: "\<bar>n\<bar> < 2 ^ 53" and j: "j \<le> 1074"
  shows "round64 v = Finite v"
proof (cases "v = 0")
  case True
  then show ?thesis by (simp add: round64_def)
next
  case False
  define e where "e = max (exponent v) (- 1022)"
  from v have vn: "v = of_int n / 2 ^ j"
    by (simp add: field_simps)
  have av: "\<bar>v\<bar> < pow2 (53 - int j)"
  proof -
    from n have "(of_int \<bar>n\<bar> :: rat) < of_int (2 ^ 53)"
      by (simp only: of_int_less_iff)
    then have "\<bar>of_int n :: rat\<bar> < 2 ^ 53" by simp
    then have "\<bar>v\<bar> < 2 ^ 53 / 2 ^ j"
      by (simp add: vn divide_strict_right_mono)
    also have "\<dots> = pow2 53 * pow2 (- int j)"
      by (simp add: pow2_neg_nat) (simp add: pow2_def)
    also have "\<dots> = pow2 (53 - int j)"
      by (simp add: pow2_add [symmetric])
    finally show ?thesis .
  qed
  have le: "e \<le> 52 - int j"
  proof (cases "exponent v \<le> - 1022")
    case True
    with j show ?thesis by (simp add: e_def)
  next
    case False
    have "pow2 (exponent v) < pow2 (53 - int j)"
      using exponent_lower [OF \<open>v \<noteq> 0\<close>] av by simp
    then have "exponent v < 53 - int j" by (rule pow2_less_imp)
    with False show ?thesis by (simp add: e_def)
  qed
  define k where "k = nat (52 - int j - e)"
  from le have k: "int k = 52 - int j - e" by (simp add: k_def)
  have "v / pow2 (e - 52) = v * pow2 (52 - e)"
    using pow2_add [of "e - 52" "52 - e"] pow2_pos [of "e - 52"]
    by (simp add: field_simps) (simp add: pow2_def)
  also have "52 - e = int j + int k" using k by simp
  also have "v * pow2 (int j + int k) = of_int (n * 2 ^ k)"
    by (simp add: pow2_add pow2_nat vn)
  finally have q: "v / pow2 (e - 52) = of_int (n * 2 ^ k)" .
  have r: "of_int (round_half_even (v / pow2 (e - 52))) * pow2 (e - 52) = v"
    unfolding q round_half_even_of_int
    using q pow2_pos [of "e - 52"] by (simp add: field_simps)
  have "\<bar>v\<bar> < pow2 1024"
  proof -
    have "pow2 (53 - int j) \<le> pow2 1024" by (rule pow2_mono) simp
    with av show ?thesis by simp
  qed
  with False r show ?thesis
    by (simp add: round64_def Let_def e_def [symmetric])
qed

lemma dyadicI:
  assumes "v * 2 ^ j = of_int n" and "\<bar>n\<bar> \<le> 2 ^ m"
  shows "dyadic j m v"
proof -
  from assms(2) have "(of_int \<bar>n\<bar> :: rat) \<le> of_int (2 ^ m)"
    by (simp only: of_int_le_iff)
  then have "\<bar>of_int n :: rat\<bar> \<le> 2 ^ m" by simp
  then have "\<bar>v * 2 ^ j\<bar> \<le> 2 ^ m" by (simp only: assms(1))
  then have "\<bar>v\<bar> * 2 ^ j \<le> 2 ^ m" by (simp add: abs_mult)
  with assms(1) show ?thesis by (simp add: dyadic_def)
qed

lemma dyadicE:
  assumes "dyadic j m v"
  obtains n where "v * 2 ^ j = of_int n" and "\<bar>n\<bar> \<le> 2 ^ m"
proof -
  let ?n = "\<lfloor>v * 2 ^ j\<rfloor>"
  from assms have "of_int ?n = v * 2 ^ j" and b: "\<bar>v\<bar> * 2 ^ j \<le> 2 ^ m"
    unfolding dyadic_def by blast+
  then have eq: "v * 2 ^ j = of_int ?n" by (simp only:)
  from b have "\<bar>v * 2 ^ j\<bar> \<le> 2 ^ m" by (simp add: abs_mult)
  then have "\<bar>of_int ?n :: rat\<bar> \<le> 2 ^ m" by (simp only: eq [symmetric])
  then have "(of_int \<bar>?n\<bar> :: rat) \<le> of_int (2 ^ m)" by simp
  then have "\<bar>?n\<bar> \<le> 2 ^ m" by (simp only: of_int_le_iff)
  with eq show ?thesis by (rule that)
qed

lemma half_sum_exact:
  assumes a: "dyadic j m a" and b: "dyadic j m b" and m: "m \<le> 51" and j: "j < 1074"
  shows "half_sum (Finite a) (Finite b) = Finite ((a + b) / 2)
         \<and> dyadic (Suc j) (Suc m) ((a + b) / 2)"
proof -
  from a obtain na where na: "a * 2 ^ j = of_int na" "\<bar>na\<bar> \<le> 2 ^ m" by (rule dyadicE)
  from b obtain nb where nb: "b * 2 ^ j = of_int nb" "\<bar>nb\<bar> \<le> 2 ^ m" by (rule dyadicE)
  have s: "(a + b) * 2 ^ j = of_int (na + nb)"
    using na(1) nb(1) by (simp add: algebra_simps)
  have h: "(a + b) / 2 * 2 ^ Suc j = of_int (na + nb)"
    using s by simp
  have bound: "\<bar>na + nb\<bar> \<le> 2 ^ Suc m"
    using na(2) nb(2) by simp
  have "(2::int) ^ Suc m \<le> 2 ^ 52"
    using m by (intro power_increasing) simp_all
  with bound have lt: "\<bar>na + nb\<bar> < 2 ^ 53" by simp
  have r1: "round64 (a + b) = Finite (a + b)"
    using j by (intro round64_exact [OF s lt]) simp
  have r2: "round64 ((a + b) / 2) = Finite ((a + b) / 2)"
    using j by (intro round64_exact [OF h lt]) simp
  have d: "dyadic (Suc j) (Suc m) ((a + b) / 2)"
    using h bound by (rule dyadicI)
  from r1 r2 d show ?thesis
    by (simp add: half_sum_def)
qed

section \<open>The wire router\<close>

lemma cubic_bezier_half:
  "cubic_bezier p0 p1 p2 p3 (1 / 2) =
     (((p0 + p1) / 2 + (p1 + p2) / 2) / 2 + ((p1 + p2) / 2 + (p2 + p3) / 2) / 2) / 2"
  by (simp add: cubic_bezier_def power2_eq_square power3_eq_cube field_simps)

lemma cascade_exact:
  assumes "dyadic k 49 p0" "dyadic k 49 p1" "dyadic k 49 p2" "dyadic k 49 p3" and k: "k \<le> 1071"
  shows "half_sum (half_sum (half_sum (Finite p0) (Finite p1)) (half_sum (Finite p1) (Finite p2)))
                  (half_sum (half_sum (Finite p1) (Finite p2)) (half_sum (Finite p2) (Finite p3)))
         = Finite (cubic_bezier p0 p1 p2 p3 (1 / 2))"
proof -
  from k have k0: "k < 1074" and k1: "Suc k < 1074" and k2: "Suc (Suc k) < 1074" by simp_all
  have m0: "(49::nat) \<le> 51" and m1: "Suc 49 \<le> 51" and m2: "Suc (Suc 49) \<le> 51" by simp_all
  note q0 = half_sum_exact [OF assms(1) assms(2) m0 k0]
  note q1 = half_sum_exact [OF assms(2) assms(3) m0 k0]
  note q2 = half_sum_exact [OF assms(3) assms(4) m0 k0]
  note r0 = half_sum_exact [OF conjunct2 [OF q0] conjunct2 [OF q1] m1 k1]
  note r1 = half_sum_exact [OF conjunct2 [OF q1] conjunct2 [OF q2] m1 k1]
  note f = half_sum_exact [OF conjunct2 [OF r0] conjunct2 [OF r1] m2 k2]
  show ?thesis
    by (simp only: conjunct1 [OF q0] conjunct1 [OF q1] conjunct1 [OF q2]
        conjunct1 [OF r0] conjunct1 [OF r1] conjunct1 [OF f] cubic_bezier_half)
qed

lemma cubic_eq_de_casteljau: "cubic_bezier p0 p1 p2 p3 (1 / 2) = de_casteljau_half p0 p1 p2 p3"
  by (simp add: cubic_bezier_def de_casteljau_half_def interpolate_half_def Let_def
      power2_eq_square power3_eq_cube field_simps)

lemma element_at_take:
  assumes "take n nums = xs" and "k < length xs"
  shows "element_at nums k = xs ! k"
proof -
  from assms have "k < length nums" and "k < n" by auto
  moreover from assms have "nums ! k = xs ! k" by auto
  ultimately show ?thesis by (simp add: element_at_def)
qed

lemma bezierMidpoint_eight:
  assumes t: "take 8 (parse_numbers d) = map Finite [x1, y1, cx1, cy1, cx2, cy2, x2, y2]"
    and g: "list_all (dyadic k 49) [x1, y1, cx1, cy1, cx2, cy2, x2, y2]" and k: "k \<le> 1071"
  shows "bezierMidpoint d =
           \<lparr>px = Finite (cubic_bezier x1 cx1 cx2 x2 (1 / 2)),
            py = Finite (cubic_bezier y1 cy1 cy2 y2 (1 / 2))\<rparr>"
proof -
  note e = element_at_take [OF t]
  have el: "element_at (parse_numbers d) 0 = Finite x1"
    "element_at (parse_numbers d) 1 = Finite y1"
    "element_at (parse_numbers d) 2 = Finite cx1"
    "element_at (parse_numbers d) 3 = Finite cy1"
    "element_at (parse_numbers d) 4 = Finite cx2"
    "element_at (parse_numbers d) 5 = Finite cy2"
    "element_at (parse_numbers d) 6 = Finite x2"
    "element_at (parse_numbers d) 7 = Finite y2"
    using e [of 0] e [of 1] e [of 2] e [of 3] e [of 4] e [of 5] e [of 6] e [of 7]
    by simp_all
  from g have gx: "dyadic k 49 x1" "dyadic k 49 cx1" "dyadic k 49 cx2" "dyadic k 49 x2"
    and gy: "dyadic k 49 y1" "dyadic k 49 cy1" "dyadic k 49 cy2" "dyadic k 49 y2"
    by simp_all
  show ?thesis
    by (simp only: bezierMidpoint_def Let_def el
        cascade_exact [OF gx k] cascade_exact [OF gy k])
qed

text \<open>
  C3, as the code has it. The claim promises the exact point of the cubic for every
  descriptor whose eight numbers are recovered. The sums and halves of \<open>bezierMidpoint\<close>
  are binary64 operations, each rounded: for the control points 0.1, 0.1, 0.2, 0.2 (as
  doubles) the result is 0.15000000000000002, which is not the point of the cubic of
  these four doubles.
\<close>

theorem cubic_point_rounds_counterexample:
  "take 8 (parse_numbers ''M 0.1 0 C 0.1 0, 0.2 0, 0.2 0'') =
     map Finite [3602879701896397 / 36028797018963968, 0,
                 3602879701896397 / 36028797018963968, 0,
                 3602879701896397 / 18014398509481984, 0,
                 3602879701896397 / 18014398509481984, 0]
   \<and> px (bezierMidpoint ''M 0.1 0 C 0.1 0, 0.2 0, 0.2 0'')
       = Finite (1351079888211149 / 9007199254740992)
   \<and> cubic_bezier (3602879701896397 / 36028797018963968) (3602879701896397 / 36028797018963968)
        (3602879701896397 / 18014398509481984) (3602879701896397 / 18014398509481984) (1 / 2)
       = 10808639105689191 / 72057594037927936
   \<and> (1351079888211149 / 9007199254740992 :: rat) \<noteq> 10808639105689191 / 72057594037927936"
proof -
  have a: "take 8 (parse_numbers ''M 0.1 0 C 0.1 0, 0.2 0, 0.2 0'') =
     map Finite [3602879701896397 / 36028797018963968, 0,
                 3602879701896397 / 36028797018963968, 0,
                 3602879701896397 / 18014398509481984, 0,
                 3602879701896397 / 18014398509481984, 0]"
    by code_simp
  have b: "px (bezierMidpoint ''M 0.1 0 C 0.1 0, 0.2 0, 0.2 0'')
       = Finite (1351079888211149 / 9007199254740992)"
    by code_simp
  have c: "cubic_bezier (3602879701896397 / 36028797018963968) (3602879701896397 / 36028797018963968)
        (3602879701896397 / 18014398509481984) (3602879701896397 / 18014398509481984) (1 / 2)
       = 10808639105689191 / 72057594037927936"
    by (simp add: cubic_bezier_half)
  have d: "(1351079888211149 / 9007199254740992 :: rat) \<noteq> 10808639105689191 / 72057594037927936"
    by simp
  from a b c d show ?thesis by simp
qed

text \<open>
  C3, amended. When the scanner recovers the eight numbers of a descriptor and all of
  them are multiples of \<open>1 / 2 ^ k\<close> of magnitude at most \<open>2 ^ 49 / 2 ^ k\<close>, for one
  \<open>k \<le> 1071\<close>, \<open>bezierMidpoint\<close> returns the point of the cubic at \<open>t = 1/2\<close>, which is
  what De Casteljau subdivision computes. For the control points (0,0), (60,0),
  (240,120), (300,120) the point is (150,60): see the witness.
\<close>

theorem midpoint_exact:
  assumes "take 8 (parse_numbers d) = map Finite [x1, y1, cx1, cy1, cx2, cy2, x2, y2]"
    and "list_all (dyadic k 49) [x1, y1, cx1, cy1, cx2, cy2, x2, y2]" and "k \<le> 1071"
  shows "bezierMidpoint d =
           \<lparr>px = Finite (cubic_bezier x1 cx1 cx2 x2 (1 / 2)),
            py = Finite (cubic_bezier y1 cy1 cy2 y2 (1 / 2))\<rparr>
         \<and> cubic_bezier x1 cx1 cx2 x2 (1 / 2) = de_casteljau_half x1 cx1 cx2 x2
         \<and> cubic_bezier y1 cy1 cy2 y2 (1 / 2) = de_casteljau_half y1 cy1 cy2 y2"
  using bezierMidpoint_eight [OF assms] by (simp add: cubic_eq_de_casteljau)

theorem midpoint_exact_witness:
  "take 8 (parse_numbers ''M 0 0 C 60 0, 240 120, 300 120'')
     = map Finite [0, 0, 60, 0, 240, 120, 300, 120]
   \<and> list_all (dyadic 0 49) [0, 0, 60, 0, 240, 120, 300, 120]
   \<and> (0::nat) \<le> 1071
   \<and> bezierMidpoint ''M 0 0 C 60 0, 240 120, 300 120'' = \<lparr>px = Finite 150, py = Finite 60\<rparr>"
proof -
  have h: "take 8 (parse_numbers ''M 0 0 C 60 0, 240 120, 300 120'')
             = map Finite [0, 0, 60, 0, 240, 120, 300, 120]"
    by code_simp
  have g: "list_all (dyadic 0 49) [0, 0, 60, 0, 240, 120, 300, 120]"
    by (simp add: dyadic_def)
  have k: "(0::nat) \<le> 1071" by simp
  have v: "cubic_bezier 0 60 240 300 (1 / 2) = 150" "cubic_bezier 0 0 120 120 (1 / 2) = 60"
    by (simp_all add: cubic_bezier_def power2_eq_square power3_eq_cube)
  from midpoint_exact [OF h g k] h g v show ?thesis by simp
qed

lemma half_sum_NaN: "half_sum a NaN = NaN" "half_sum NaN a = NaN"
  by (cases a; simp add: half_sum_def)+

text \<open>
  C7, as the code has it. The claim asks for an explicit failure on a descriptor that
  does not yield eight numbers. \<open>bezierMidpoint\<close> has no failure: the descriptor that
  \<open>pathBetween\<close> would print from boxes without numbers yields no number at all, and
  the result is the point (NaN, NaN).
\<close>

theorem midpoint_malformed_counterexample:
  "bezierMidpoint ''M NaN NaN C NaN NaN, NaN NaN, NaN NaN'' = \<lparr>px = NaN, py = NaN\<rparr>"
  by code_simp

lemma element_at_take8:
  assumes "k < 8"
  shows "element_at nums k = element_at (take 8 nums) k"
  using assms by (simp add: element_at_def)

lemma bezierMidpoint_first_eight:
  assumes "take 8 (parse_numbers d) = take 8 (parse_numbers d')"
  shows "bezierMidpoint d = bezierMidpoint d'"
proof -
  have "element_at (parse_numbers d) k = element_at (parse_numbers d') k" if "k < 8" for k
    using element_at_take8 [OF that, of "parse_numbers d"]
      element_at_take8 [OF that, of "parse_numbers d'"] assms by simp
  then show ?thesis
    by (simp add: bezierMidpoint_def Let_def)
qed

text \<open>
  C7, amended. For every descriptor, well formed or not, \<open>bezierMidpoint\<close> returns a point
  and signals nothing. With fewer than eight numbers recovered the y coordinate is NaN,
  and with fewer than seven the x coordinate is NaN too. The point depends on the first
  eight numbers only: what the scanner finds after them is ignored, and a descriptor
  that the scanner cuts into other numbers than were printed (at an exponent, as in the
  witness) gives the point of those numbers.
\<close>

theorem midpoint_malformed:
  "(length (parse_numbers d) < 8 \<longrightarrow> py (bezierMidpoint d) = NaN)
   \<and> (length (parse_numbers d) < 7 \<longrightarrow> px (bezierMidpoint d) = NaN)
   \<and> (take 8 (parse_numbers d) = take 8 (parse_numbers d') \<longrightarrow>
        bezierMidpoint d = bezierMidpoint d')"
proof -
  have y: "py (bezierMidpoint d) = NaN" if "length (parse_numbers d) < 8"
  proof -
    from that have "element_at (parse_numbers d) 7 = NaN"
      by (simp add: element_at_def)
    then show ?thesis
      by (simp add: bezierMidpoint_def Let_def half_sum_NaN)
  qed
  have x: "px (bezierMidpoint d) = NaN" if "length (parse_numbers d) < 7"
  proof -
    from that have "element_at (parse_numbers d) 6 = NaN"
      by (simp add: element_at_def)
    then show ?thesis
      by (simp add: bezierMidpoint_def Let_def half_sum_NaN)
  qed
  from x y bezierMidpoint_first_eight [of d d'] show ?thesis by blast
qed

theorem midpoint_malformed_witness:
  "length (parse_numbers ''M 1 2 C 3 4, 5 6'') < 7
   \<and> bezierMidpoint ''M 1 2 C 3 4, 5 6'' = \<lparr>px = NaN, py = NaN\<rparr>
   \<and> take 8 (parse_numbers ''M 1e-7 0 C 1e-7 0, 1 0, 1 0'')
       = take 8 (parse_numbers ''M 1 -7 C 0 1, -7 0, 1 0'')
   \<and> bezierMidpoint ''M 1e-7 0 C 1e-7 0, 1 0, 1 0''
       = \<lparr>px = Finite (- 19 / 8), py = Finite (- 1 / 2)\<rparr>
   \<and> bezierMidpoint ''M 1 -7 C 0 1, -7 0, 1 0''
       = \<lparr>px = Finite (- 19 / 8), py = Finite (- 1 / 2)\<rparr>"
proof -
  have h: "length (parse_numbers ''M 1 2 C 3 4, 5 6'') < 7"
    by code_simp
  then have h8: "length (parse_numbers ''M 1 2 C 3 4, 5 6'') < 8"
    by simp
  have t: "take 8 (parse_numbers ''M 1e-7 0 C 1e-7 0, 1 0, 1 0'')
       = take 8 (parse_numbers ''M 1 -7 C 0 1, -7 0, 1 0'')"
    by code_simp
  have v: "bezierMidpoint ''M 1 -7 C 0 1, -7 0, 1 0''
       = \<lparr>px = Finite (- 19 / 8), py = Finite (- 1 / 2)\<rparr>"
    by code_simp
  from midpoint_malformed [of "''M 1 2 C 3 4, 5 6''" "''M 1 2 C 3 4, 5 6''"] h h8
  have n: "bezierMidpoint ''M 1 2 C 3 4, 5 6'' = \<lparr>px = NaN, py = NaN\<rparr>"
    by (cases "bezierMidpoint ''M 1 2 C 3 4, 5 6''") simp
  from midpoint_malformed [of "''M 1e-7 0 C 1e-7 0, 1 0, 1 0''" "''M 1 -7 C 0 1, -7 0, 1 0''"] t v
  have "bezierMidpoint ''M 1e-7 0 C 1e-7 0, 1 0, 1 0''
       = \<lparr>px = Finite (- 19 / 8), py = Finite (- 1 / 2)\<rparr>"
    by simp
  with h n t v show ?thesis by simp
qed

subsection \<open>Scanning a descriptor\<close>












section \<open>Node identifiers\<close>

declare nat_to_string.simps [simp del]

lemma is_digit_iff: "is_digit c \<longleftrightarrow> 48 \<le> (of_char c :: nat) \<and> (of_char c :: nat) \<le> 57"
proof -
  have e: "c = d \<longleftrightarrow> (of_char c :: nat) = of_char d" for d
    by simp
  have "is_digit c \<longleftrightarrow> (of_char c :: nat) \<in> {48, 49, 50, 51, 52, 53, 54, 55, 56, 57}"
    unfolding is_digit_def by (simp add: e)
  also have "\<dots> \<longleftrightarrow> 48 \<le> (of_char c :: nat) \<and> (of_char c :: nat) \<le> 57"
    by (simp only: insert_iff empty_iff) arith
  finally show ?thesis .
qed

lemma is_digit_digit_char: "k < 10 \<Longrightarrow> is_digit (digit_char k)"
  by (simp add: is_digit_iff digit_char_def)

lemma digit_val_digit_char: "k < 10 \<Longrightarrow> digit_val (digit_char k) = k"
  by (simp add: digit_val_def digit_char_def)

lemma nat_to_string_digits: "list_all is_digit (nat_to_string n)"
proof (induction n rule: nat_to_string.induct)
  case (1 n)
  show ?case
  proof (cases "n < 10")
    case True
    then show ?thesis
      by (simp add: nat_to_string.simps [of n] is_digit_digit_char)
  next
    case False
    with 1 show ?thesis
      by (simp add: nat_to_string.simps [of n] is_digit_digit_char)
  qed
qed

lemma digits_to_nat_nat_to_string: "digits_to_nat (nat_to_string n) = n"
proof (induction n rule: nat_to_string.induct)
  case (1 n)
  show ?case
  proof (cases "n < 10")
    case True
    then show ?thesis
      by (simp add: nat_to_string.simps [of n] digits_to_nat_def digit_val_digit_char)
  next
    case False
    with 1 have "digits_to_nat (nat_to_string (n div 10)) = n div 10" by simp
    with False show ?thesis
      by (simp add: nat_to_string.simps [of n] digits_to_nat_def digit_val_digit_char)
  qed
qed

lemma nat_to_string_inject: "nat_to_string i = nat_to_string j \<Longrightarrow> i = j"
  by (metis digits_to_nat_nat_to_string)

lemma digits_prefix:
  assumes "list_all is_digit ds" and "\<not> is_digit c"
  shows "takeWhile is_digit (ds @ c # t) = ds"
  using assms by (simp add: takeWhile_tail list_all_iff)

lemma seq_node_id_eq_imp:
  assumes "seq_node_id i a = seq_node_id j b"
  shows "i = j"
proof -
  from assms have eq: "nat_to_string i @ CHR ''_'' # seq_tool_name a
               = nat_to_string j @ CHR ''_'' # seq_tool_name b"
    by (simp add: seq_node_id_def)
  have u: "\<not> is_digit CHR ''_''"
    by (simp add: is_digit_iff)
  have "takeWhile is_digit (nat_to_string i @ CHR ''_'' # seq_tool_name a) = nat_to_string i"
    by (rule digits_prefix [OF nat_to_string_digits u])
  moreover
  have "takeWhile is_digit (nat_to_string j @ CHR ''_'' # seq_tool_name b) = nat_to_string j"
    by (rule digits_prefix [OF nat_to_string_digits u])
  ultimately have "nat_to_string i = nat_to_string j"
    using eq by simp
  then show "i = j" by (rule nat_to_string_inject)
qed

lemma seq_node_id_nonempty: "seq_node_id idx a \<noteq> ''''"
  by (simp add: seq_node_id_def)

text \<open>
  C9. Within a sequential block the identifier of an entry determines its index: two
  entries at different indices have different identifiers, whatever their tool names.
  The index is printed in digits and the underscore after it is no digit.
\<close>

theorem seq_node_id_injective:
  assumes "i \<noteq> j"
  shows "seq_node_id i a \<noteq> seq_node_id j b"
  using assms seq_node_id_eq_imp [of i a j b] by blast

theorem seq_node_id_injective_witness:
  "(1::nat) \<noteq> 11
   \<and> seq_node_id 1 (tool ''1_X'') = ''seq_1_1_X''
   \<and> seq_node_id 11 (tool ''X'') = ''seq_11_X''
   \<and> seq_node_id 1 (tool ''1_X'') \<noteq> seq_node_id 11 (tool ''X'')"
proof -
  have h: "(1::nat) \<noteq> 11" by simp
  have v: "seq_node_id 1 (tool ''1_X'') = ''seq_1_1_X''" "seq_node_id 11 (tool ''X'') = ''seq_11_X''"
    by code_simp+
  from seq_node_id_injective [OF h, of "tool ''1_X''" "tool ''X''"] h v show ?thesis by simp
qed

section \<open>The layout engine: what one step draws\<close>

lemma createNode_eq:
  "createNode e ident opts s =
     s\<lparr>canvas := canvas s @ [NodeEl (node_el ident opts)],
       nodePositions := (nodePositions s)(ident \<mapsto> box_of e (node_el ident opts))\<rparr>"
  by (simp add: createNode_def node_el_def box_of_def Let_def)

lemma node_elements_simps:
  "node_elements (createNode e ident opts s) = node_elements s @ [node_el ident opts]"
  "node_elements (addWire d s) = node_elements s"
  "node_elements (labelAt mid txt s) = node_elements s"
  "node_elements (clear s) = []"
  "node_elements (s\<lparr>viewBox := v\<rparr>) = node_elements s"
  by (simp_all add: node_elements_def createNode_eq addWire_def labelAt_def clear_def
      is_other_def split: element.splits)

lemma label_elements_simps:
  "label_elements (createNode e ident opts s) = label_elements s"
  "label_elements (addWire d s) = label_elements s"
  "label_elements (labelAt mid txt s) =
     label_elements s @ [\<lparr>lbl_text = txt, lbl_left = px mid, lbl_top = py mid\<rparr>]"
  "label_elements (clear s) = []"
  "label_elements (s\<lparr>viewBox := v\<rparr>) = label_elements s"
  by (simp_all add: label_elements_def createNode_eq addWire_def labelAt_def clear_def
      is_other_def split: element.splits)

lemma svg_simps:
  "svg (createNode e ident opts s) = svg s"
  "svg (addWire d s) = svg s @ [d]"
  "svg (labelAt mid txt s) = svg s"
  "svg (clear s) = []"
  by (simp_all add: createNode_eq addWire_def labelAt_def clear_def)

lemma nodePositions_simps:
  "nodePositions (createNode e ident opts s) =
     (nodePositions s)(ident \<mapsto> box_of e (node_el ident opts))"
  "nodePositions (addWire d s) = nodePositions s"
  "nodePositions (labelAt mid txt s) = nodePositions s"
  "nodePositions (clear s) = Map.empty"
  by (simp_all add: createNode_eq addWire_def labelAt_def clear_def)

text \<open>A branch that starts with an action, under a split whose node has a box.\<close>

lemma render_branch_ok:
  assumes "branch_steps br = ActionStep a # rest" and "nodePositions s sid = Some fb"
  shows "render_branch e sid cursorY i br s =
           (let s1 = createNode e (branch_node_id i a) (branch_opts cursorY i a) s;
                to = box_of e (node_el (branch_node_id i a) (branch_opts cursorY i a));
                d = pathBetween (numberToString e)
                      (if sid = branch_node_id i a then to else fb) to 70
            in Inr (labelAt (bezierMidpoint d) (branch_label br) (addWire d s1)))"
  using assms
  by (simp add: render_branch_def Let_def nodePositions_simps branch_opts_def)

text \<open>Any other branch throws, and the page is as it was before the branch.\<close>

lemma render_branch_throws:
  assumes "\<not> starts_with_action br"
  shows "render_branch e sid cursorY i br s = Inl (TypeError, s)"
  using assms
  by (simp add: render_branch_def starts_with_action_def split: list.splits step.splits)

lemma render_branch_nodes:
  assumes "starts_with_action br" and "nodePositions s sid \<noteq> None"
  shows "\<exists>s'. render_branch e sid cursorY i br s = Inr s'
           \<and> map position (node_elements s') =
               map position (node_elements s) @ [(originX + columnWidth, cursorY + of_nat i * gapY)]
           \<and> length (svg s') = Suc (length (svg s))
           \<and> map lbl_text (label_elements s') = map lbl_text (label_elements s) @ [branch_label br]
           \<and> nodePositions s' sid \<noteq> None"
proof -
  from assms(1) obtain a rest where b: "branch_steps br = ActionStep a # rest"
    by (auto simp: starts_with_action_def split: list.splits step.splits)
  from assms(2) obtain fb where f: "nodePositions s sid = Some fb" by auto
  show ?thesis
    unfolding render_branch_ok [OF b f]
    using f
    by (simp add: Let_def node_elements_simps label_elements_simps svg_simps nodePositions_simps
        position_def node_el_def branch_opts_def)
qed

lemma render_branches_nodes:
  assumes "list_all starts_with_action brs" and "nodePositions s sid \<noteq> None"
  shows "\<exists>s'. render_branches e sid cursorY i brs s = Inr s'
           \<and> map position (node_elements s') =
               map position (node_elements s)
               @ map (\<lambda>k. (originX + columnWidth, cursorY + of_nat k * gapY)) [i..<i + length brs]
           \<and> length (svg s') = length (svg s) + length brs
           \<and> map lbl_text (label_elements s') =
               map lbl_text (label_elements s) @ map branch_label brs"
  using assms
proof (induction brs arbitrary: i s)
  case Nil
  then show ?case by simp
next
  case (Cons br brs)
  from Cons.prems have sw: "starts_with_action br" and rest: "list_all starts_with_action brs"
    by simp_all
  from render_branch_nodes [OF sw Cons.prems(2), of e cursorY i]
  obtain s1 where s1: "render_branch e sid cursorY i br s = Inr s1"
    and n1: "map position (node_elements s1) =
               map position (node_elements s) @ [(originX + columnWidth, cursorY + of_nat i * gapY)]"
    and w1: "length (svg s1) = Suc (length (svg s))"
    and l1: "map lbl_text (label_elements s1) = map lbl_text (label_elements s) @ [branch_label br]"
    and p1: "nodePositions s1 sid \<noteq> None"
    by blast
  from Cons.IH [OF rest p1, of "Suc i"]
  obtain s2 where s2: "render_branches e sid cursorY (Suc i) brs s1 = Inr s2"
    and n2: "map position (node_elements s2) =
               map position (node_elements s1)
               @ map (\<lambda>k. (originX + columnWidth, cursorY + of_nat k * gapY))
                   [Suc i..<Suc i + length brs]"
    and w2: "length (svg s2) = length (svg s1) + length brs"
    and l2: "map lbl_text (label_elements s2) =
               map lbl_text (label_elements s1) @ map branch_label brs"
    by blast
  have u: "[i..<i + length (br # brs)] = i # [Suc i..<Suc i + length brs]"
    using upt_conv_Cons [of i "i + length (br # brs)"] by simp
  from s1 s2 n1 n2 w1 w2 l1 l2 show ?case
    unfolding u by simp
qed

lemma el_node_id_node_el: "el_node_id (node_el ident opts) = ident"
  by (simp add: node_el_def)

lemma render_seq_action_first:
  "render_seq_action e cursorY idx None a s =
     Inr (Some (seq_node_id idx a),
          s\<lparr>canvas := canvas s @ [NodeEl (seq_node cursorY idx a)],
            nodePositions := (nodePositions s)(seq_node_id idx a \<mapsto> box_of e (seq_node cursorY idx a))\<rparr>)"
  by (simp add: render_seq_action_def Let_def truthy_def createNode_eq seq_node_def)

lemma render_seq_action_next:
  assumes "nodePositions s (el_node_id p) = Some (box_of e p)"
    and "el_node_id p = seq_node_id k pa" and "k < idx"
  shows "render_seq_action e cursorY idx (Some (el_node_id p)) a s =
     Inr (Some (seq_node_id idx a),
          s\<lparr>canvas := canvas s @ [NodeEl (seq_node cursorY idx a)],
            svg := svg s @ [wire_of e (p, seq_node cursorY idx a)],
            nodePositions := (nodePositions s)(seq_node_id idx a \<mapsto> box_of e (seq_node cursorY idx a))\<rparr>)"
proof -
  from assms(2,3) have ne: "el_node_id p \<noteq> seq_node_id idx a"
    using seq_node_id_eq_imp [of k pa idx a] by auto
  from assms(2) have t: "truthy (Some (el_node_id p))"
    by (simp add: truthy_def seq_node_id_nonempty)
  from ne t assms(1) show ?thesis
    by (simp add: render_seq_action_def Let_def or_empty_def createNode_eq seq_node_def
        addWire_def wire_of_def)
qed

lemma render_sequential_ok:
  assumes "pre = [] \<and> prevId = None
           \<or> (\<exists>p k pa. pre = [p] \<and> prevId = Some (el_node_id p) \<and> k < idx
                \<and> el_node_id p = seq_node_id k pa
                \<and> nodePositions s (el_node_id p) = Some (box_of e p))"
  shows "\<exists>s'. render_sequential e cursorY idx prevId acts s = Inr s'
           \<and> node_elements s' =
               node_elements s @ map (\<lambda>(k, a). seq_node cursorY k a) (enumerate idx acts)
           \<and> svg s' =
               svg s @ map (wire_of e)
                 (zip (pre @ map (\<lambda>(k, a). seq_node cursorY k a) (enumerate idx acts))
                      (tl (pre @ map (\<lambda>(k, a). seq_node cursorY k a) (enumerate idx acts))))
           \<and> label_elements s' = label_elements s"
  using assms
proof (induction acts arbitrary: idx prevId pre s)
  case Nil
  then show ?case by auto
next
  case (Cons a acts)
  let ?n = "seq_node cursorY idx a"
  let ?rest = "map (\<lambda>(k, a). seq_node cursorY k a) (enumerate (Suc idx) acts)"
  have idn: "el_node_id ?n = seq_node_id idx a"
    by (simp add: seq_node_def el_node_id_node_el)
  from Cons.prems show ?case
  proof
    assume "pre = [] \<and> prevId = None"
    then have pre: "pre = []" and prev: "prevId = None" by simp_all
    let ?s1 = "s\<lparr>canvas := canvas s @ [NodeEl ?n],
               nodePositions := (nodePositions s)(seq_node_id idx a \<mapsto> box_of e ?n)\<rparr>"
    have "[?n] = [] \<and> Some (seq_node_id idx a) = None
           \<or> (\<exists>p k pa. [?n] = [p] \<and> Some (seq_node_id idx a) = Some (el_node_id p) \<and> k < Suc idx
                \<and> el_node_id p = seq_node_id k pa
                \<and> nodePositions ?s1 (el_node_id p) = Some (box_of e p))"
      using idn by auto
    from Cons.IH [OF this]
    obtain s' where "render_sequential e cursorY (Suc idx) (Some (seq_node_id idx a)) acts ?s1 = Inr s'"
      and "node_elements s' = node_elements ?s1 @ ?rest"
      and "svg s' = svg ?s1 @ map (wire_of e) (zip ([?n] @ ?rest) (tl ([?n] @ ?rest)))"
      and "label_elements s' = label_elements ?s1"
      by blast
    then show ?thesis
      by (simp add: pre prev render_seq_action_first node_elements_def label_elements_def)
  next
    assume "\<exists>p k pa. pre = [p] \<and> prevId = Some (el_node_id p) \<and> k < idx
                \<and> el_node_id p = seq_node_id k pa
                \<and> nodePositions s (el_node_id p) = Some (box_of e p)"
    then obtain p k pa where pre: "pre = [p]" and prev: "prevId = Some (el_node_id p)"
      and k: "k < idx" and pid: "el_node_id p = seq_node_id k pa"
      and pb: "nodePositions s (el_node_id p) = Some (box_of e p)"
      by blast
    let ?s1 = "s\<lparr>canvas := canvas s @ [NodeEl ?n],
               svg := svg s @ [wire_of e (p, ?n)],
               nodePositions := (nodePositions s)(seq_node_id idx a \<mapsto> box_of e ?n)\<rparr>"
    have "[?n] = [] \<and> Some (seq_node_id idx a) = None
           \<or> (\<exists>p k pa. [?n] = [p] \<and> Some (seq_node_id idx a) = Some (el_node_id p) \<and> k < Suc idx
                \<and> el_node_id p = seq_node_id k pa
                \<and> nodePositions ?s1 (el_node_id p) = Some (box_of e p))"
      using idn by auto
    from Cons.IH [OF this]
    obtain s' where "render_sequential e cursorY (Suc idx) (Some (seq_node_id idx a)) acts ?s1 = Inr s'"
      and "node_elements s' = node_elements ?s1 @ ?rest"
      and "svg s' = svg ?s1 @ map (wire_of e) (zip ([?n] @ ?rest) (tl ([?n] @ ?rest)))"
      and "label_elements s' = label_elements ?s1"
      by blast
    then show ?thesis
      by (simp add: pre prev render_seq_action_next [OF pb pid k] node_elements_def
          label_elements_def)
  qed
qed

lemma position_seq_node: "position (seq_node cursorY k a) = (originX, cursorY + of_nat k * 120)"
  by (simp add: position_def seq_node_def node_el_def)

lemma position_seq_nodes:
  "map position (map (\<lambda>(k, a). seq_node cursorY k a) (enumerate idx acts)) =
     map (\<lambda>k. (originX, cursorY + of_nat k * 120)) [idx..<idx + length acts]"
proof -
  have "map position (map (\<lambda>(k, a). seq_node cursorY k a) (enumerate idx acts)) =
          map (\<lambda>x. (originX, cursorY + of_nat (fst x) * 120)) (enumerate idx acts)"
    by (simp add: position_seq_node case_prod_unfold comp_def)
  also have "\<dots> = map (\<lambda>k. (originX, cursorY + of_nat k * 120)) (map fst (enumerate idx acts))"
    by (simp only: map_map comp_def)
  also have "\<dots> = map (\<lambda>k. (originX, cursorY + of_nat k * 120)) [idx..<idx + length acts]"
    by (simp only: map_fst_enumerate)
  finally show ?thesis .
qed


text \<open>
  C4. A split whose branches each start with an action, visited with the cursor at
  \<open>cursorY\<close>: the step completes; it appends the decision node at \<open>(originX, cursorY)\<close>
  and then, for the branch at index \<open>i\<close>, a node at
  \<open>(originX + columnWidth, cursorY + i * gapY)\<close>; and the cursor of the next step is
  \<open>cursorY + (length branches - 1) * gapY + 200\<close>. With three branches from 160 the
  branch nodes stand at 160, 300 and 440 and the next cursor is 640: see the witness.
\<close>

theorem split_layout:
  assumes "list_all starts_with_action branches"
  shows "\<exists>s'. render_step e (SplitStep sid slabel branches) cursorY s =
                 Inr (cursorY + (of_nat (length branches) - 1) * gapY + 200, s')
           \<and> map position (node_elements s') =
               map position (node_elements s) @ (originX, cursorY)
               # map (\<lambda>i. (originX + columnWidth, cursorY + of_nat i * gapY))
                   [0..<length branches]"
proof -
  let ?s1 = "createNode e sid \<lparr>opt_title = slabel, opt_subtitle = None, opt_type = Decision,
                       opt_x = originX, opt_y = cursorY\<rparr> s"
  have p: "nodePositions ?s1 sid \<noteq> None"
    by (simp add: nodePositions_simps)
  from render_branches_nodes [OF assms p, of e cursorY 0]
  obtain s2 where "render_branches e sid cursorY 0 branches ?s1 = Inr s2"
    and "map position (node_elements s2) =
               map position (node_elements ?s1)
               @ map (\<lambda>k. (originX + columnWidth, cursorY + of_nat k * gapY))
                   [0..<0 + length branches]"
    by blast
  then show ?thesis
    by (simp add: render_step_def Let_def node_elements_simps position_def node_el_def)
qed

theorem split_layout_witness:
  "list_all starts_with_action three_branches
   \<and> (\<exists>s'. render_step demo_env (SplitStep ''s'' ''S'' three_branches) 160 empty_page
               = Inr (640, s')
          \<and> map position (node_elements s') = [(140, 160), (460, 160), (460, 300), (460, 440)])"
proof -
  have h: "list_all starts_with_action three_branches"
    by (simp add: three_branches_def starts_with_action_def)
  have l: "length three_branches = 3"
    by (simp add: three_branches_def)
  have u: "[0..<3] = [0, 1, 2]"
    by (simp add: upt_rec)
  from split_layout [OF h, of demo_env "''s''" "''S''" 160 empty_page] h show ?thesis
    by (simp add: l u originX_def columnWidth_def gapY_def node_elements_def empty_page_def)
qed

text \<open>
  C5. A sequential block visited with the cursor at \<open>cursorY\<close>: the step always
  completes; it appends one node per entry, the one at index \<open>idx\<close> at
  \<open>(originX, cursorY + idx * 120)\<close>; it appends one wire per node but the first, from the
  node before it, so \<open>length acts - 1\<close> wires (none for an empty block); and the cursor
  of the next step is \<open>cursorY + length acts * 120 + 40\<close>.
\<close>

theorem sequential_layout:
  "\<exists>s' ns. render_step e (SequentialStep acts) cursorY s =
              Inr (cursorY + of_nat (length acts) * 120 + 40, s')
     \<and> node_elements s' = node_elements s @ ns
     \<and> map position ns = map (\<lambda>idx. (originX, cursorY + of_nat idx * 120)) [0..<length acts]
     \<and> svg s' = svg s @ map (\<lambda>(p, n). pathBetween (numberToString e) (box_of e p) (box_of e n) 60)
                          (zip ns (tl ns))
     \<and> length (svg s') = length (svg s) + (length acts - 1)"
proof -
  let ?ns = "map (\<lambda>(k, a). seq_node cursorY k a) (enumerate 0 acts)"
  have "[] = [] \<and> None = None
           \<or> (\<exists>p k pa. [] = [p] \<and> None = Some (el_node_id p) \<and> k < 0
                \<and> el_node_id p = seq_node_id k pa
                \<and> nodePositions s (el_node_id p) = Some (box_of e p))"
    by simp
  from render_sequential_ok [OF this, where cursorY = cursorY and acts = acts]
  obtain s' where r: "render_sequential e cursorY 0 None acts s = Inr s'"
    and n: "node_elements s' = node_elements s @ ?ns"
    and w: "svg s' = svg s @ map (wire_of e) (zip ([] @ ?ns) (tl ([] @ ?ns)))"
    by blast
  have wf: "wire_of e = (\<lambda>(p, n). pathBetween (numberToString e) (box_of e p) (box_of e n) 60)"
    by (simp add: wire_of_def fun_eq_iff)
  have p: "map position ?ns = map (\<lambda>idx. (originX, cursorY + of_nat idx * 120)) [0..<length acts]"
    using position_seq_nodes [of cursorY 0 acts] by simp
  have l: "length (svg s') = length (svg s) + (length acts - 1)"
    unfolding w by simp
  from r n w p l show ?thesis
    unfolding wf by (simp add: render_step_def)
qed

theorem sequential_layout_witness:
  "\<exists>s' ns. render_step demo_env (SequentialStep [tool ''A'', tool ''B'', tool ''C'', tool ''D''])
               160 empty_page = Inr (680, s')
     \<and> node_elements s' = ns
     \<and> map position ns = [(140, 160), (140, 280), (140, 400), (140, 520)]
     \<and> length (svg s') = 3"
proof -
  have u: "[0..<4] = [0, 1, 2, 3]"
    by (simp add: upt_rec)
  from sequential_layout [of demo_env "[tool ''A'', tool ''B'', tool ''C'', tool ''D'']"
      160 empty_page]
  obtain s' ns where
    "render_step demo_env (SequentialStep [tool ''A'', tool ''B'', tool ''C'', tool ''D''])
       160 empty_page = Inr (160 + of_nat (length [tool ''A'', tool ''B'', tool ''C'', tool ''D'']) * 120 + 40, s')"
    and "node_elements s' = node_elements empty_page @ ns"
    and "map position ns = map (\<lambda>idx. (originX, 160 + of_nat idx * 120))
           [0..<length [tool ''A'', tool ''B'', tool ''C'', tool ''D'']]"
    and "length (svg s') = length (svg empty_page)
           + (length [tool ''A'', tool ''B'', tool ''C'', tool ''D''] - 1)"
    by blast
  then show ?thesis
    by (simp add: u originX_def node_elements_def empty_page_def)
qed

lemma nat_to_string_small:
  "nat_to_string 0 = ''0''"
  "nat_to_string (Suc 0) = ''1''"
  "nat_to_string (Suc (Suc 0)) = ''2''"
  "nat_to_string (Suc (Suc (Suc 0))) = ''3''"
  by code_simp+

text \<open>
  C1, as the code has it. The claim counts 6 nodes for the example plan. \<open>render\<close>
  draws 7: the decision node of the split, its 2 branch nodes, and the 4 nodes of the
  sequential block.
\<close>

theorem example_six_nodes_counterexample:
  "length (node_elements (page_after (render demo_env example empty_page))) = 7
   \<and> length (node_elements (page_after (render demo_env example empty_page))) \<noteq> 6"
  by (simp add: render_def example_def render_step_def render_branch_def render_seq_action_def
      branch_node_id_def seq_node_id_def nat_to_string_small truthy_def or_empty_def
      node_elements_simps nodePositions_simps Let_def page_after_def)

text \<open>
  C1, amended. For the example plan, whatever the browser answers and whatever the page
  held before, one call of \<open>render\<close> completes and leaves exactly 7 nodes (the decision
  node, 2 branch nodes, 4 sequential nodes), exactly 5 wires (2 branch wires and 3
  sequential links) and exactly 2 branch labels, with the texts \<open>true\<close> and \<open>false\<close>.
\<close>

theorem example_scenario:
  "\<exists>s'. render e example s = Inr s'
        \<and> map el_node_id (node_elements s') =
            [''is_manager'', ''add_to_channel'', ''update_profile'',
             ''seq_0_SHOPIFY_CREATE_PRODUCT'', ''seq_1_OPENAI_IMAGE_GENERATION'',
             ''seq_2_EXPOSE_FILE_ON_URL'', ''seq_3_SHOPIFY_CREATE_PRODUCT_IMAGE'']
        \<and> length (node_elements s') = 7
        \<and> length (svg s') = 5
        \<and> map lbl_text (label_elements s') = [''true'', ''false'']"
  by (simp add: render_def example_def render_step_def render_branch_def render_seq_action_def
      branch_node_id_def seq_node_id_def nat_to_string_small truthy_def or_empty_def
      node_elements_simps label_elements_simps svg_simps nodePositions_simps Let_def node_el_def)

section \<open>The layout engine: a whole pass\<close>

text \<open>
  What every drawing primitive respects, every loop of the traversal respects, whether
  it completes or throws.
\<close>

lemma page_after_simps:
  "page_after (Inl (err, s)) = s"
  "page_after (Inr s) = s"
  by (simp_all add: page_after_def)

lemma render_branch_rel:
  assumes refl: "\<And>s. R s s"
    and trans: "\<And>s t u. R s t \<Longrightarrow> R t u \<Longrightarrow> R s u"
    and cn: "\<And>ident opts s. R s (createNode e ident opts s)"
    and aw: "\<And>d s. R s (addWire d s)"
    and la: "\<And>mid txt s. R s (labelAt mid txt s)"
  shows "R s (page_after (render_branch e sid cursorY i br s))"
proof -
  have chain: "R s (labelAt mid lbl (addWire d (createNode e ident opts s)))"
    for mid lbl d ident opts
    by (rule trans [OF cn trans [OF aw la]])
  show ?thesis
    by (simp add: render_branch_def Let_def page_after_simps refl cn chain
        split: list.splits step.splits option.splits)
qed

lemma render_branches_rel:
  assumes refl: "\<And>s. R s s"
    and trans: "\<And>s t u. R s t \<Longrightarrow> R t u \<Longrightarrow> R s u"
    and cn: "\<And>ident opts s. R s (createNode e ident opts s)"
    and aw: "\<And>d s. R s (addWire d s)"
    and la: "\<And>mid txt s. R s (labelAt mid txt s)"
  shows "R s (page_after (render_branches e sid cursorY i brs s))"
proof (induction brs arbitrary: i s)
  case Nil
  show ?case by (simp add: page_after_simps refl)
next
  case (Cons br brs)
  have b: "R s (page_after (render_branch e sid cursorY i br s))"
    by (rule render_branch_rel [OF refl trans cn aw la])
  show ?case
  proof (cases "render_branch e sid cursorY i br s")
    case (Inl x)
    with b show ?thesis by simp
  next
    case (Inr s1)
    with b have "R s s1" by (simp add: page_after_simps)
    from trans [OF this Cons.IH [where i = "Suc i" and s = s1]] Inr show ?thesis by simp
  qed
qed

lemma render_seq_action_rel:
  assumes refl: "\<And>s. R s s"
    and trans: "\<And>s t u. R s t \<Longrightarrow> R t u \<Longrightarrow> R s u"
    and cn: "\<And>ident opts s. R s (createNode e ident opts s)"
    and aw: "\<And>d s. R s (addWire d s)"
  shows "R s (page_after (map_sum id snd (render_seq_action e cursorY idx prevId a s)))"
proof -
  have chain: "R s (addWire d (createNode e ident opts s))" for d ident opts
    by (rule trans [OF cn aw])
  show ?thesis
    by (simp add: render_seq_action_def Let_def page_after_simps cn chain
        split: option.splits)
qed

lemma render_sequential_rel:
  assumes refl: "\<And>s. R s s"
    and trans: "\<And>s t u. R s t \<Longrightarrow> R t u \<Longrightarrow> R s u"
    and cn: "\<And>ident opts s. R s (createNode e ident opts s)"
    and aw: "\<And>d s. R s (addWire d s)"
  shows "R s (page_after (render_sequential e cursorY idx prevId acts s))"
proof (induction acts arbitrary: idx prevId s)
  case Nil
  show ?case by (simp add: page_after_simps refl)
next
  case (Cons a acts)
  have b: "R s (page_after (map_sum id snd (render_seq_action e cursorY idx prevId a s)))"
    by (rule render_seq_action_rel [OF refl trans cn aw])
  show ?case
  proof (cases "render_seq_action e cursorY idx prevId a s")
    case (Inl x)
    with b show ?thesis by simp
  next
    case (Inr r)
    obtain prevId' s1 where r: "r = (prevId', s1)" by (cases r)
    with b Inr have "R s s1" by (simp add: page_after_simps)
    from trans [OF this Cons.IH [where idx = "Suc idx" and prevId = prevId' and s = s1]] Inr r show ?thesis by simp
  qed
qed

lemma render_step_rel:
  assumes refl: "\<And>s. R s s"
    and trans: "\<And>s t u. R s t \<Longrightarrow> R t u \<Longrightarrow> R s u"
    and cn: "\<And>ident opts s. R s (createNode e ident opts s)"
    and aw: "\<And>d s. R s (addWire d s)"
    and la: "\<And>mid txt s. R s (labelAt mid txt s)"
  shows "R s (page_after (map_sum id snd (render_step e st cursorY s)))"
proof (cases st)
  case (ActionStep a)
  then show ?thesis by (simp add: render_step_def page_after_simps refl)
next
  case (SplitStep sid slabel branches)
  let ?s1 = "createNode e sid \<lparr>opt_title = slabel, opt_subtitle = None, opt_type = Decision,
                       opt_x = originX, opt_y = cursorY\<rparr> s"
  have "R ?s1 (page_after (render_branches e sid cursorY 0 branches ?s1))"
    by (rule render_branches_rel [OF refl trans cn aw la])
  from trans [OF cn this] SplitStep show ?thesis
    by (cases "render_branches e sid cursorY 0 branches ?s1")
       (simp_all add: render_step_def Let_def page_after_def)
next
  case (SequentialStep acts)
  have "R s (page_after (render_sequential e cursorY 0 None acts s))"
    by (rule render_sequential_rel [OF refl trans cn aw])
  with SequentialStep show ?thesis
    by (cases "render_sequential e cursorY 0 None acts s")
       (simp_all add: render_step_def page_after_def)
qed

lemma render_steps_rel:
  assumes refl: "\<And>s. R s s"
    and trans: "\<And>s t u. R s t \<Longrightarrow> R t u \<Longrightarrow> R s u"
    and cn: "\<And>ident opts s. R s (createNode e ident opts s)"
    and aw: "\<And>d s. R s (addWire d s)"
    and la: "\<And>mid txt s. R s (labelAt mid txt s)"
  shows "R s (page_after (map_sum id snd (render_steps e sts cursorY s)))"
proof (induction sts arbitrary: cursorY s)
  case Nil
  show ?case by (simp add: page_after_simps refl)
next
  case (Cons st sts)
  have b: "R s (page_after (map_sum id snd (render_step e st cursorY s)))"
    by (rule render_step_rel [OF refl trans cn aw la])
  show ?case
  proof (cases "render_step e st cursorY s")
    case (Inl x)
    with b show ?thesis by simp
  next
    case (Inr r)
    obtain cursorY' s1 where r: "r = (cursorY', s1)" by (cases r)
    with b Inr have "R s s1" by (simp add: page_after_simps)
    from trans [OF this Cons.IH [where cursorY = cursorY' and s = s1]] Inr r show ?thesis by simp
  qed
qed

lemma render_step_ok:
  assumes "well_formed_step st"
  shows "\<exists>cursorY' s'. render_step e st cursorY s = Inr (cursorY', s')"
proof (cases st)
  case (ActionStep a)
  then show ?thesis by (simp add: render_step_def)
next
  case (SplitStep sid slabel branches)
  let ?s1 = "createNode e sid \<lparr>opt_title = slabel, opt_subtitle = None, opt_type = Decision,
                       opt_x = originX, opt_y = cursorY\<rparr> s"
  from assms SplitStep have w: "list_all starts_with_action branches"
    by (simp add: well_formed_step_def)
  have p: "nodePositions ?s1 sid \<noteq> None"
    by (simp add: nodePositions_simps)
  from render_branches_nodes [OF w p, of e cursorY 0]
  obtain s2 where "render_branches e sid cursorY 0 branches ?s1 = Inr s2"
    by blast
  with SplitStep show ?thesis
    by (simp add: render_step_def Let_def)
next
  case (SequentialStep acts)
  have "[] = [] \<and> None = None
           \<or> (\<exists>p k pa. [] = [p] \<and> None = Some (el_node_id p) \<and> k < 0
                \<and> el_node_id p = seq_node_id k pa
                \<and> nodePositions s (el_node_id p) = Some (box_of e p))"
    by simp
  from render_sequential_ok [OF this, where cursorY = cursorY and acts = acts]
  obtain s' where "render_sequential e cursorY 0 None acts s = Inr s'"
    by blast
  with SequentialStep show ?thesis
    by (simp add: render_step_def)
qed

lemma render_steps_ok:
  assumes "list_all well_formed_step sts"
  shows "\<exists>cursorY' s'. render_steps e sts cursorY s = Inr (cursorY', s')"
  using assms
proof (induction sts arbitrary: cursorY s)
  case Nil
  show ?case by simp
next
  case (Cons st sts)
  then have "well_formed_step st" and rest: "list_all well_formed_step sts"
    by simp_all
  from render_step_ok [OF this(1), of e cursorY s]
  obtain c1 s1 where "render_step e st cursorY s = Inr (c1, s1)" by blast
  with Cons.IH [OF rest, of c1 s1] show ?case by simp
qed

lemma latest_boxes_snoc:
  "latest_boxes e (ns @ [n]) = (latest_boxes e ns)(el_node_id n \<mapsto> box_of e n)"
  by (simp add: latest_boxes_def)

lemma render_steps_boxes:
  assumes "nodePositions s = latest_boxes e (node_elements s)"
    and "render_steps e sts cursorY s = Inr (cursorY', s')"
  shows "nodePositions s' = latest_boxes e (node_elements s')"
proof -
  let ?R = "\<lambda>s t. nodePositions s = latest_boxes e (node_elements s)
                \<longrightarrow> nodePositions t = latest_boxes e (node_elements t)"
  have "?R s (page_after (map_sum id snd (render_steps e sts cursorY s)))"
    by (rule render_steps_rel)
       (simp_all add: node_elements_simps nodePositions_simps latest_boxes_snoc
          el_node_id_node_el)
  with assms show ?thesis
    by (simp add: page_after_simps)
qed

text \<open>
  C8. Nothing in a pass checks that identifiers are unique. For every plan whose splits
  have branches that start with an action, \<open>render\<close> completes, and \<^verbatim>\<open>nodePositions\<close>
  then maps each identifier to the box of the last node drawn under it: where two nodes
  share an identifier, the later box has replaced the earlier one without any error. In
  the witness two sequential blocks both draw a node \<^verbatim>\<open>seq_0_T\<close>; both nodes are on the
  canvas, and the one entry of the mapping holds the box of the second, at y = 320.
\<close>

theorem collisions_overwrite:
  assumes "list_all well_formed_step (plan_steps p)"
  shows "\<exists>s'. render e p s = Inr s' \<and> nodePositions s' = latest_boxes e (node_elements s')"
proof -
  from render_steps_ok [OF assms, of e originY "clear s"]
  obtain c t where r: "render_steps e (plan_steps p) originY (clear s) = Inr (c, t)"
    by blast
  have "nodePositions (clear s) = latest_boxes e (node_elements (clear s))"
    by (simp add: node_elements_simps nodePositions_simps latest_boxes_def)
  from render_steps_boxes [OF this r]
  have "nodePositions t = latest_boxes e (node_elements t)" .
  with r show ?thesis
    by (simp add: render_def node_elements_simps)
qed

theorem collisions_overwrite_witness:
  "list_all well_formed_step (plan_steps colliding_plan)
   \<and> (\<exists>s'. render demo_env colliding_plan empty_page = Inr s'
          \<and> nodePositions s' = latest_boxes demo_env (node_elements s'))
   \<and> map (\<lambda>n. (el_node_id n, el_top n))
        (node_elements (page_after (render demo_env colliding_plan empty_page)))
       = [(''seq_0_T'', 160), (''seq_0_T'', 320)]
   \<and> map_option box_y (nodePositions (page_after (render demo_env colliding_plan empty_page))
        ''seq_0_T'') = Some 320
   \<and> dom (nodePositions (page_after (render demo_env colliding_plan empty_page)))
       = {''seq_0_T''}"
proof -
  have h: "list_all well_formed_step (plan_steps colliding_plan)"
    by (simp add: colliding_plan_def well_formed_step_def)
  have v: "map (\<lambda>n. (el_node_id n, el_top n))
        (node_elements (page_after (render demo_env colliding_plan empty_page)))
       = [(''seq_0_T'', 160), (''seq_0_T'', 320)]"
    "map_option box_y (nodePositions (page_after (render demo_env colliding_plan empty_page))
        ''seq_0_T'') = Some 320"
    "dom (nodePositions (page_after (render demo_env colliding_plan empty_page)))
       = {''seq_0_T''}"
    by (simp_all add: render_def colliding_plan_def render_step_def render_seq_action_def
      seq_node_id_def nat_to_string_small truthy_def or_empty_def tool_def originX_def originY_def
      node_elements_simps nodePositions_simps Let_def page_after_def node_el_def box_of_def)
  from collisions_overwrite [OF h, of demo_env empty_page] h v show ?thesis
    by simp
qed

lemma viewBox_commute:
  "createNode e ident opts (s\<lparr>viewBox := v\<rparr>) = (createNode e ident opts s)\<lparr>viewBox := v\<rparr>"
  "addWire d (s\<lparr>viewBox := v\<rparr>) = (addWire d s)\<lparr>viewBox := v\<rparr>"
  "labelAt mid lbl (s\<lparr>viewBox := v\<rparr>) = (labelAt mid lbl s)\<lparr>viewBox := v\<rparr>"
  by (simp_all add: createNode_eq addWire_def labelAt_def)

lemma render_branch_viewBox:
  "render_branch e sid cursorY i br (s\<lparr>viewBox := v\<rparr>) =
     map_sum (apsnd (\<lambda>t. t\<lparr>viewBox := v\<rparr>)) (\<lambda>t. t\<lparr>viewBox := v\<rparr>)
       (render_branch e sid cursorY i br s)"
  by (simp add: render_branch_def Let_def viewBox_commute nodePositions_simps
      split: list.splits step.splits option.splits)

lemma render_branches_viewBox:
  "render_branches e sid cursorY i brs (s\<lparr>viewBox := v\<rparr>) =
     map_sum (apsnd (\<lambda>t. t\<lparr>viewBox := v\<rparr>)) (\<lambda>t. t\<lparr>viewBox := v\<rparr>)
       (render_branches e sid cursorY i brs s)"
proof (induction brs arbitrary: i s)
  case Nil
  show ?case by simp
next
  case (Cons br brs)
  show ?case
    by (cases "render_branch e sid cursorY i br s")
       (simp_all add: render_branch_viewBox Cons.IH)
qed

lemma render_seq_action_viewBox:
  "render_seq_action e cursorY idx prevId a (s\<lparr>viewBox := v\<rparr>) =
     map_sum (apsnd (\<lambda>t. t\<lparr>viewBox := v\<rparr>)) (apsnd (\<lambda>t. t\<lparr>viewBox := v\<rparr>))
       (render_seq_action e cursorY idx prevId a s)"
  by (simp add: render_seq_action_def Let_def viewBox_commute nodePositions_simps
      split: option.splits)

lemma render_sequential_viewBox:
  "render_sequential e cursorY idx prevId acts (s\<lparr>viewBox := v\<rparr>) =
     map_sum (apsnd (\<lambda>t. t\<lparr>viewBox := v\<rparr>)) (\<lambda>t. t\<lparr>viewBox := v\<rparr>)
       (render_sequential e cursorY idx prevId acts s)"
proof (induction acts arbitrary: idx prevId s)
  case Nil
  show ?case by simp
next
  case (Cons a acts)
  show ?case
  proof (cases "render_seq_action e cursorY idx prevId a s")
    case (Inl x)
    then show ?thesis by (simp add: render_seq_action_viewBox)
  next
    case (Inr r)
    then show ?thesis
      by (cases r) (simp add: render_seq_action_viewBox Cons.IH)
  qed
qed

lemma render_step_viewBox:
  "render_step e st cursorY (s\<lparr>viewBox := v\<rparr>) =
     map_sum (apsnd (\<lambda>t. t\<lparr>viewBox := v\<rparr>)) (apsnd (\<lambda>t. t\<lparr>viewBox := v\<rparr>))
       (render_step e st cursorY s)"
  by (cases st)
     (simp_all add: render_step_def Let_def viewBox_commute render_branches_viewBox
        render_sequential_viewBox split: sum.splits)

lemma render_steps_viewBox:
  "render_steps e sts cursorY (s\<lparr>viewBox := v\<rparr>) =
     map_sum (apsnd (\<lambda>t. t\<lparr>viewBox := v\<rparr>)) (apsnd (\<lambda>t. t\<lparr>viewBox := v\<rparr>))
       (render_steps e sts cursorY s)"
proof (induction sts arbitrary: cursorY s)
  case Nil
  show ?case by simp
next
  case (Cons st sts)
  show ?case
  proof (cases "render_step e st cursorY s")
    case (Inl x)
    then show ?thesis by (simp add: render_step_viewBox)
  next
    case (Inr r)
    then show ?thesis
      by (cases r) (simp add: render_step_viewBox Cons.IH)
  qed
qed

text \<open>The traversal leaves the foreign children of the canvas and the viewBox alone.\<close>

lemma render_steps_frame:
  "filter is_other (canvas (page_after (map_sum id snd (render_steps e sts cursorY s))))
     = filter is_other (canvas s)
   \<and> viewBox (page_after (map_sum id snd (render_steps e sts cursorY s))) = viewBox s"
proof -
  let ?R = "\<lambda>s t. filter is_other (canvas t) = filter is_other (canvas s)
                \<and> viewBox t = viewBox s"
  have "?R s (page_after (map_sum id snd (render_steps e sts cursorY s)))"
    by (rule render_steps_rel)
       (simp_all add: createNode_eq addWire_def labelAt_def is_other_def)
  then show ?thesis .
qed

lemma clear_cong:
  assumes "filter is_other (canvas t) = filter is_other (canvas s)" and "viewBox t = viewBox s"
  shows "clear t = clear s"
  using assms by (cases s, cases t) (simp add: clear_def)

lemma clear_clear_canvas: "filter is_other (canvas (clear s)) = filter is_other (canvas s)"
  by (simp add: clear_def)

lemma render_twice:
  "render e p (page_after (render e p s)) = render e p s"
proof (cases "render_steps e (plan_steps p) originY (clear s)")
  case (Inl x)
  obtain err t where x: "x = (err, t)" by (cases x)
  from render_steps_frame [of e "plan_steps p" originY "clear s"] Inl x
  have "filter is_other (canvas t) = filter is_other (canvas s)" and "viewBox t = viewBox s"
    by (simp_all add: page_after_simps clear_def)
  then have "clear t = clear s" by (rule clear_cong)
  moreover from Inl x have "page_after (render e p s) = t"
    by (simp add: render_def page_after_simps)
  ultimately show ?thesis
    by (simp add: render_def)
next
  case (Inr r)
  obtain c t where r: "r = (c, t)" by (cases r)
  let ?v = "Some (''0 0 '' @ numberToString e (fst (canvas_rect e)) @ '' ''
                  @ numberToString e (snd (canvas_rect e)))"
  from render_steps_frame [of e "plan_steps p" originY "clear s"] Inr r
  have "filter is_other (canvas t) = filter is_other (canvas s)" and "viewBox t = viewBox s"
    by (simp_all add: page_after_simps clear_def)
  then have c: "clear t = clear s" by (rule clear_cong)
  have "clear (t\<lparr>viewBox := ?v\<rparr>) = (clear t)\<lparr>viewBox := ?v\<rparr>"
    by (simp add: clear_def)
  with c have c': "clear (t\<lparr>viewBox := ?v\<rparr>) = (clear s)\<lparr>viewBox := ?v\<rparr>"
    by simp
  from Inr r have a: "render e p s = Inr (t\<lparr>viewBox := ?v\<rparr>)"
    by (simp add: render_def)
  have "render e p (t\<lparr>viewBox := ?v\<rparr>) = Inr (t\<lparr>viewBox := ?v\<rparr>)"
    unfolding render_def c' render_steps_viewBox using Inr r by simp
  with a show ?thesis
    by (simp add: page_after_simps)
qed

text \<open>
  C6. A call of \<open>render\<close> starts from the cleared page: no node, no branch label, no
  wire, and an empty \<^verbatim>\<open>nodePositions\<close>, whatever the page held. So a second call on the
  page that a first call left, with the same plan and the same answers of the browser,
  ends as the first did, with the same page: the same nodes and boxes, the same curve
  descriptors, the same labels at the same points.
\<close>

theorem render_idempotent:
  "render e p (page_after (render e p s)) = render e p s
   \<and> render e p s = render e p (clear s)
   \<and> node_elements (clear s) = [] \<and> label_elements (clear s) = []
   \<and> svg (clear s) = [] \<and> nodePositions (clear s) = Map.empty"
proof -
  have "clear (clear s) = clear s"
    by (simp add: clear_def)
  then have "render e p s = render e p (clear s)"
    by (simp add: render_def)
  then show ?thesis
    by (simp add: render_twice node_elements_simps label_elements_simps svg_simps
        nodePositions_simps)
qed

end
